theory Spec2Isabelle
  imports Main "HOL-Library.Log_Nat" "HOL-Library.Multiset"
begin

section \<open>MCQ Generator: the option synthesizer and the quiz session of app.py\<close>

text \<open>
  The script app.py is run from top to bottom once per user interaction. What survives
  from one run to the next is the session dictionary, the temporary file on disk, the
  state of the answering oracle (the retrieval chain) and the state of the random number
  generator. Each run is modelled as a function from the run's inputs and that world to
  the outcome of the run and the new world.

  Strings are lists of \<^typ>\<open>char\<close>, read as code points below 256.
\<close>

subsection \<open>Errors\<close>

text \<open>
  Every way a run can end before its last line: an exception of the oracle, of the
  document loader or indexer, a missing key, an index out of range, a division by zero,
  and the script stop requested after a failed save.
\<close>

datatype error =
    OracleError
  | IndexingError
  | KeyError
  | IndexError
  | ZeroDivisionError
  | ScriptStopped

subsection \<open>Trimming whitespace\<close>

text \<open>
  \<^verbatim>\<open>str.strip()\<close> removes leading and trailing whitespace. Among the code points below
  256 the whitespace characters are 9 to 13, 28 to 32, 133 and 160.
\<close>

definition is_space :: "char \<Rightarrow> bool" where
  "is_space c =
     (let n = (of_char c :: nat)
      in (9 \<le> n \<and> n \<le> 13) \<or> (28 \<le> n \<and> n \<le> 32) \<or> n = 133 \<or> n = 160)"

definition strip :: "string \<Rightarrow> string" where
  "strip s = rev (dropWhile is_space (rev (dropWhile is_space s)))"

subsection \<open>The answering oracle\<close>

text \<open>
  \<^verbatim>\<open>qa_chain.run(prompt)\<close> returns a text or raises. The oracle is a transition function
  on its own state: the same prompt may be answered differently at each call.
\<close>

type_synonym 's qa_chain = "'s \<Rightarrow> string \<Rightarrow> (error + string) \<times> 's"

definition distractor_prompt :: "string \<Rightarrow> string" where
  "distractor_prompt question =
     ''Provide a plausible but incorrect answer for this question: '' @ question @ ''. ''
     @ ''Avoid repeating previous options.''"

definition question_prompt :: string where
  "question_prompt =
     ''Create a multiple-choice question based on the document content. Provide only the question.''"

definition answer_prompt :: "string \<Rightarrow> string" where
  "answer_prompt question =
     ''Provide the correct answer for this question: '' @ question @ ''. ''
     @ ''Provide only the correct answer.''"

subsection \<open>generate_mcq\<close>

text \<open>
  The loop \<^verbatim>\<open>while len(options) < 4\<close> of generate_mcq. It has no bound on the number of
  oracle calls, so it is a partial function: \<open>None\<close> is the run that never leaves the
  loop. An exception of the oracle leaves the loop with that error.
\<close>

partial_function (option) generate_loop ::
  "'s qa_chain \<Rightarrow> string \<Rightarrow> string list \<Rightarrow> 's \<Rightarrow> ((error + string list) \<times> 's) option"
where
  "generate_loop run question options s =
     (if length options < 4 then
        (case run s (distractor_prompt question) of
           (Inl e, s') \<Rightarrow> Some (Inl e, s')
         | (Inr fake_answer, s') \<Rightarrow>
             if fake_answer \<notin> set options \<and> length (strip fake_answer) > 0
             then generate_loop run question (options @ [fake_answer]) s'
             else generate_loop run question options s')
      else Some (Inr options, s))"

text \<open>
  \<^verbatim>\<open>random.shuffle\<close>: for \<open>i\<close> from \<open>len - 1\<close> down to 1, draw \<open>j\<close> below \<open>i + 1\<close> and swap
  the elements at \<open>i\<close> and \<open>j\<close>. The generator is a stream of raw draws; a draw below
  \<open>i + 1\<close> is the next raw draw modulo \<open>i + 1\<close>.
\<close>

type_synonym rng = "nat \<Rightarrow> nat"

fun shuffle_from :: "nat \<Rightarrow> rng \<Rightarrow> 'a list \<Rightarrow> 'a list \<times> rng" where
  "shuffle_from 0 rnd xs = (xs, rnd)"
| "shuffle_from (Suc i) rnd xs =
     (let j = rnd 0 mod (Suc (Suc i))
      in shuffle_from i (\<lambda>n. rnd (Suc n)) (xs[Suc i := xs ! j, j := xs ! Suc i]))"

definition shuffle :: "rng \<Rightarrow> 'a list \<Rightarrow> 'a list \<times> rng" where
  "shuffle rnd xs = shuffle_from (length xs - 1) rnd xs"

definition generate_mcq ::
  "string \<Rightarrow> string \<Rightarrow> 's qa_chain \<Rightarrow> 's \<Rightarrow> rng \<Rightarrow> ((error + string list) \<times> 's \<times> rng) option"
where
  "generate_mcq question correct_answer run s rnd =
     (case generate_loop run question [correct_answer] s of
        None \<Rightarrow> None
      | Some (Inl e, s') \<Rightarrow> Some (Inl e, s', rnd)
      | Some (Inr options, s') \<Rightarrow>
          (let (shuffled, rnd') = shuffle rnd options in Some (Inr shuffled, s', rnd')))"

subsection \<open>Session state, disk and inputs of a run\<close>

text \<open>
  \<^verbatim>\<open>st.session_state\<close> with the five keys the script uses. A key that is absent is
  \<open>False\<close> or \<open>None\<close>; \<^verbatim>\<open>pdf_processed\<close> and \<^verbatim>\<open>qa_chain\<close> carry no value the
  model needs beyond their presence. A stored question is the triple
  \<^verbatim>\<open>(question, options, correct_answer)\<close>.
\<close>

type_synonym mcq = "string \<times> string list \<times> string"

record session_state =
  pdf_processed :: bool
  qa_chain :: bool
  questions :: "mcq list option"
  score :: "int option"
  current_question :: "int option"

definition empty_session :: session_state where
  "empty_session =
     \<lparr>pdf_processed = False, qa_chain = False, questions = None, score = None,
      current_question = None\<rparr>"

record 's world =
  session :: session_state
  temp_file :: bool
  chain_state :: 's
  rnd_state :: rng

text \<open>
  What one run receives from outside: whether a file is in the uploader, how saving it
  and indexing it go, which buttons were clicked and what the radio group returns.
\<close>

datatype save_result = Saved | OpenFailed | WriteFailed

record inputs =
  uploaded_file :: bool
  upload_save :: save_result
  upload_index_ok :: bool
  generate_clicked :: bool
  selected_option :: string
  submit_clicked :: bool
  next_clicked :: bool

subsection \<open>The upload handler (lines 94 to 125)\<close>

text \<open>
  \<^verbatim>\<open>open(temp_file_path, "wb")\<close> creates the file, so a failed write leaves it on disk. A
  failed save ends the run with \<^verbatim>\<open>st.stop()\<close>; an exception while loading or indexing
  ends the run as well.
\<close>

definition upload_section :: "inputs \<Rightarrow> 's world \<Rightarrow> (error + unit) \<times> 's world" where
  "upload_section inp w =
     (if uploaded_file inp then
        (if \<not> pdf_processed (session w) then
           (case upload_save inp of
              OpenFailed \<Rightarrow> (Inl ScriptStopped, w)
            | WriteFailed \<Rightarrow> (Inl ScriptStopped, w\<lparr>temp_file := True\<rparr>)
            | Saved \<Rightarrow>
                (if upload_index_ok inp
                 then (Inr (), w\<lparr>temp_file := True,
                         session := (session w)\<lparr>qa_chain := True, pdf_processed := True\<rparr>\<rparr>)
                 else (Inl IndexingError, w\<lparr>temp_file := True\<rparr>)))
         else (Inr (), w))
      else (Inr (), w))"

subsection \<open>The Generate MCQ handler (lines 141 to 159)\<close>

text \<open>
  The body of \<^verbatim>\<open>for _ in range(4)\<close>, run \<open>n\<close> more times. Every exception leaves the
  session as the loop has changed it so far.
\<close>

fun generate_questions ::
  "nat \<Rightarrow> 's qa_chain \<Rightarrow> 's world \<Rightarrow> ((error + unit) \<times> 's world) option"
where
  "generate_questions 0 run w = Some (Inr (), w)"
| "generate_questions (Suc n) run w =
     (if \<not> qa_chain (session w) then Some (Inl KeyError, w)
      else
        (case run (chain_state w) question_prompt of
           (Inl e, s1) \<Rightarrow> Some (Inl e, w\<lparr>chain_state := s1\<rparr>)
         | (Inr question, s1) \<Rightarrow>
             (case run s1 (answer_prompt question) of
                (Inl e, s2) \<Rightarrow> Some (Inl e, w\<lparr>chain_state := s2\<rparr>)
              | (Inr correct_answer, s2) \<Rightarrow>
                  (case generate_mcq question correct_answer run s2 (rnd_state w) of
                     None \<Rightarrow> None
                   | Some (Inl e, s3, r) \<Rightarrow> Some (Inl e, w\<lparr>chain_state := s3, rnd_state := r\<rparr>)
                   | Some (Inr options, s3, r) \<Rightarrow>
                       (case questions (session w) of
                          None \<Rightarrow> Some (Inl KeyError, w\<lparr>chain_state := s3, rnd_state := r\<rparr>)
                        | Some qs \<Rightarrow>
                            generate_questions n run
                              (w\<lparr>session := (session w)
                                   \<lparr>questions := Some (qs @ [(question, options, correct_answer)])\<rparr>,
                                 chain_state := s3, rnd_state := r\<rparr>))))))"

definition generate_section ::
  "inputs \<Rightarrow> 's qa_chain \<Rightarrow> 's world \<Rightarrow> ((error + unit) \<times> 's world) option"
where
  "generate_section inp run w =
     (if pdf_processed (session w) \<and> generate_clicked inp then
        (if questions (session w) = None then
           generate_questions 4 run
             (w\<lparr>session := (session w)
                  \<lparr>questions := Some [], score := Some 0, current_question := Some 0\<rparr>\<rparr>)
         else Some (Inr (), w))
      else Some (Inr (), w))"

subsection \<open>Floating point and the percentage (lines 182 to 187)\<close>

text \<open>
  \<^verbatim>\<open>score / total_q\<close> is the true quotient of two integers rounded to the nearest
  double, and \<^verbatim>\<open>* 100\<close> rounds the product again. A double is a 53-bit integer times a
  power of two; rounding is to nearest, ties to even. The exponent range of doubles is
  left out: no value of this script comes near its ends.
\<close>

definition round_half_even :: "rat \<Rightarrow> int" where
  "round_half_even x =
     (let f = \<lfloor>x\<rfloor>; d = x - of_int f
      in if d < 1 / 2 then f else if 1 / 2 < d then f + 1 else if even f then f else f + 1)"

definition float_exponent :: "rat \<Rightarrow> int" where
  "float_exponent x =
     (let (p, q) = quotient_of \<bar>x\<bar>; k = bitlen p - bitlen q
      in if 2 powi k \<le> \<bar>x\<bar> then k else k - 1)"

definition round_float :: "rat \<Rightarrow> rat" where
  "round_float x =
     (if x = 0 then 0
      else (let ulp = 2 powi (float_exponent x - 52)
            in of_int (round_half_even (x / ulp)) * ulp))"

definition score_percentage :: "int \<Rightarrow> nat \<Rightarrow> error + rat" where
  "score_percentage sc total_q =
     (if total_q = 0 then Inl ZeroDivisionError
      else Inr (round_float (round_float (of_int sc / of_nat total_q) * 100)))"

text \<open>
  The format \<^verbatim>\<open>:.2f\<close>: the exact value of the double rounded to hundredths (ties to
  even), written with a sign, the integer digits, a point and two digits.
\<close>

definition digit_char :: "nat \<Rightarrow> char" where
  "digit_char d = char_of (48 + d)"

fun digits :: "nat \<Rightarrow> string" where
  "digits n = (if n < 10 then [digit_char n] else digits (n div 10) @ [digit_char (n mod 10)])"

definition format_2f :: "rat \<Rightarrow> string" where
  "format_2f x =
     (let h = nat (round_half_even (\<bar>x\<bar> * 100))
      in (if x < 0 then ''-'' else []) @ digits (h div 100) @ ''.''
         @ [digit_char (h mod 100 div 10), digit_char (h mod 10)])"

subsection \<open>Showing the quiz (lines 162 to 194)\<close>

datatype feedback = Correct | Wrong

text \<open>
  What a run shows: nothing, the current question with the feedback of a submission, or
  the completion summary with the percentage text and the review list.
\<close>

datatype view =
    NoQuiz
  | QuestionView int string "string list" "feedback option"
  | SummaryView string "(string \<times> string) list"

text \<open>Python list indexing: a negative index counts from the end.\<close>

definition py_index :: "'a list \<Rightarrow> int \<Rightarrow> error + 'a" where
  "py_index xs i =
     (if 0 \<le> i \<and> i < int (length xs) then Inr (xs ! nat i)
      else if i < 0 \<and> - int (length xs) \<le> i then Inr (xs ! nat (int (length xs) + i))
      else Inl IndexError)"

definition submit_answer ::
  "inputs \<Rightarrow> string \<Rightarrow> session_state \<Rightarrow> (error + feedback option) \<times> session_state"
where
  "submit_answer inp correct_answer ss =
     (if submit_clicked inp then
        (if selected_option inp = correct_answer then
           (case score ss of
              None \<Rightarrow> (Inl KeyError, ss)
            | Some sc \<Rightarrow> (Inr (Some Correct), ss\<lparr>score := Some (sc + 1)\<rparr>))
         else (Inr (Some Wrong), ss))
      else (Inr None, ss))"

definition advance :: "inputs \<Rightarrow> session_state \<Rightarrow> (error + unit) \<times> session_state" where
  "advance inp ss =
     (if next_clicked inp then
        (case current_question ss of
           None \<Rightarrow> (Inl KeyError, ss)
         | Some c \<Rightarrow> (Inr (), ss\<lparr>current_question := Some (c + 1)\<rparr>))
      else (Inr (), ss))"

definition review :: "mcq list \<Rightarrow> (string \<times> string) list" where
  "review qs = map (\<lambda>(question, _, correct_answer). (question, correct_answer)) qs"

definition summary :: "session_state \<Rightarrow> mcq list \<Rightarrow> error + view" where
  "summary ss qs =
     (case score ss of
        None \<Rightarrow> Inl KeyError
      | Some sc \<Rightarrow>
          (case score_percentage sc (length qs) of
             Inl e \<Rightarrow> Inl e
           | Inr p \<Rightarrow> Inr (SummaryView (format_2f p) (review qs))))"

definition quiz_section :: "inputs \<Rightarrow> session_state \<Rightarrow> (error + view) \<times> session_state" where
  "quiz_section inp ss =
     (case questions ss of
        None \<Rightarrow> (Inr NoQuiz, ss)
      | Some qs \<Rightarrow>
          (case current_question ss of
             None \<Rightarrow> (Inl KeyError, ss)
           | Some current_q \<Rightarrow>
               (if current_q < int (length qs) then
                  (case py_index qs current_q of
                     Inl e \<Rightarrow> (Inl e, ss)
                   | Inr (question, options, correct_answer) \<Rightarrow>
                       (case submit_answer inp correct_answer ss of
                          (Inl e, ss1) \<Rightarrow> (Inl e, ss1)
                        | (Inr fb, ss1) \<Rightarrow>
                            (case advance inp ss1 of
                               (Inl e, ss2) \<Rightarrow> (Inl e, ss2)
                             | (Inr _, ss2) \<Rightarrow>
                                 (Inr (QuestionView (current_q + 1) question options fb), ss2))))
                else (summary ss qs, ss))))"

subsection \<open>The whole script\<close>

text \<open>Lines 196 to 198: the temporary file is removed when the run reaches them.\<close>

definition cleanup :: "'s world \<Rightarrow> 's world" where
  "cleanup w = (if temp_file w then w\<lparr>temp_file := False\<rparr> else w)"

text \<open>
  One run. An error of a section ends the run there, with the world as it is at that
  point; \<open>None\<close> is the run that never ends.
\<close>

definition run_script ::
  "'s qa_chain \<Rightarrow> inputs \<Rightarrow> 's world \<Rightarrow> ((error + view) \<times> 's world) option"
where
  "run_script run inp w =
     (case upload_section inp w of
        (Inl e, w1) \<Rightarrow> Some (Inl e, w1)
      | (Inr _, w1) \<Rightarrow>
          (case generate_section inp run w1 of
             None \<Rightarrow> None
           | Some (Inl e, w2) \<Rightarrow> Some (Inl e, w2)
           | Some (Inr _, w2) \<Rightarrow>
               (case quiz_section inp (session w2) of
                  (Inl e, ss) \<Rightarrow> Some (Inl e, w2\<lparr>session := ss\<rparr>)
                | (Inr v, ss) \<Rightarrow> Some (Inr v, cleanup (w2\<lparr>session := ss\<rparr>)))))"

text \<open>
  The worlds a user can bring about: a fresh session, then any number of runs that end,
  each with any inputs.
\<close>

inductive reachable :: "'s qa_chain \<Rightarrow> 's world \<Rightarrow> bool" for run :: "'s qa_chain" where
  fresh: "session w = empty_session \<Longrightarrow> reachable run w"
| after_run: "reachable run w \<Longrightarrow> run_script run inp w = Some (out, w') \<Longrightarrow> reachable run w'"

subsection \<open>Oracle traces\<close>

text \<open>
  The first \<open>n\<close> answers an oracle gives to one prompt from a state, and the texts among
  them that the loop of generate_mcq would take as new options next to \<open>options\<close>:
  not already an option, not blank, each counted once.
\<close>

fun responses :: "nat \<Rightarrow> 's qa_chain \<Rightarrow> string \<Rightarrow> 's \<Rightarrow> (error + string) list" where
  "responses 0 run prompt s = []"
| "responses (Suc n) run prompt s =
     (case run s prompt of (r, s') \<Rightarrow> r # responses n run prompt s')"

fun texts :: "(error + string) list \<Rightarrow> string list" where
  "texts [] = []"
| "texts (Inl e # rs) = texts rs"
| "texts (Inr a # rs) = a # texts rs"

definition fresh_candidates :: "string list \<Rightarrow> (error + string) list \<Rightarrow> string list" where
  "fresh_candidates options rs =
     remdups (filter (\<lambda>a. a \<notin> set options \<and> strip a \<noteq> []) (texts rs))"

subsection \<open>A sequence of runs of the quiz\<close>

definition quiz_runs :: "inputs list \<Rightarrow> session_state \<Rightarrow> session_state" where
  "quiz_runs inps ss = foldl (\<lambda>s inp. snd (quiz_section inp s)) ss inps"

text \<open>A sequence of runs of the whole script, as long as every run ends.\<close>

fun script_runs :: "'s qa_chain \<Rightarrow> inputs list \<Rightarrow> 's world \<Rightarrow> 's world option" where
  "script_runs run [] w = Some w"
| "script_runs run (inp # inps) w =
     (case run_script run inp w of
        None \<Rightarrow> None
      | Some (out, w') \<Rightarrow> script_runs run inps w')"

subsection \<open>The invariant of the session\<close>

text \<open>
  Once the questions list exists, the document has been processed, there are at most
  four questions, the score is set and not negative, and the position is set and lies
  between 0 and the number of questions.
\<close>

definition quiz_invariant :: "session_state \<Rightarrow> bool" where
  "quiz_invariant ss =
     (case questions ss of
        None \<Rightarrow> True
      | Some qs \<Rightarrow>
          pdf_processed ss \<and> length qs \<le> 4 \<and>
          (case score ss of None \<Rightarrow> False | Some sc \<Rightarrow> 0 \<le> sc) \<and>
          (case current_question ss of None \<Rightarrow> False | Some c \<Rightarrow> 0 \<le> c \<and> c \<le> int (length qs)))"

subsection \<open>Oracles, inputs and sessions for concrete runs\<close>

text \<open>
  An oracle that answers from a fixed list of texts whatever the prompt, and raises once
  the list is used up; and an oracle that gives the same text at every call.
\<close>

definition scripted :: "string list qa_chain" where
  "scripted s prompt = (case s of [] \<Rightarrow> (Inl OracleError, []) | r # rs \<Rightarrow> (Inr r, rs))"

definition repeating :: "string \<Rightarrow> unit qa_chain" where
  "repeating a s prompt = (Inr a, s)"

definition idle :: inputs where
  "idle =
     \<lparr>uploaded_file = False, upload_save = Saved, upload_index_ok = True,
      generate_clicked = False, selected_option = [], submit_clicked = False,
      next_clicked = False\<rparr>"

definition demo_questions :: "mcq list" where
  "demo_questions =
     [(''Q1'', [''B1'', ''C1'', ''D1'', ''A1''], ''A1''),
      (''Q2'', [''B2'', ''C2'', ''D2'', ''A2''], ''A2''),
      (''Q3'', [''B3'', ''C3'', ''D3'', ''A3''], ''A3''),
      (''Q4'', [''B4'', ''C4'', ''D4'', ''A4''], ''A4'')]"

definition demo_session :: session_state where
  "demo_session =
     \<lparr>pdf_processed = True, qa_chain = True, questions = Some demo_questions,
      score = Some 0, current_question = Some 0\<rparr>"

definition fresh_world :: "'s \<Rightarrow> 's world" where
  "fresh_world s = \<lparr>session = empty_session, temp_file = False, chain_state = s, rnd_state = (\<lambda>_. 0)\<rparr>"

definition processed_world :: "'s \<Rightarrow> 's world" where
  "processed_world s =
     \<lparr>session = empty_session\<lparr>pdf_processed := True, qa_chain := True\<rparr>,
      temp_file = False, chain_state = s, rnd_state = (\<lambda>_. 0)\<rparr>"

definition quiz_world :: "'s \<Rightarrow> 's world" where
  "quiz_world s =
     \<lparr>session = demo_session, temp_file = False, chain_state = s, rnd_state = (\<lambda>_. 0)\<rparr>"

definition demo_at :: "int \<Rightarrow> int \<Rightarrow> string list world" where
  "demo_at n c =
     \<lparr>session = \<lparr>pdf_processed = True, qa_chain = True, questions = Some demo_questions,
                  score = Some n, current_question = Some c\<rparr>,
      temp_file = False, chain_state = [], rnd_state = (\<lambda>_. 0)\<rparr>"

definition demo_script :: "string list" where
  "demo_script =
     [''Q1'', ''A1'', ''B1'', ''C1'', ''D1'', ''Q2'', ''A2'', ''B2'', ''C2'', ''D2'',
      ''Q3'', ''A3'', ''B3'', ''C3'', ''D3'', ''Q4'', ''A4'', ''B4'', ''C4'', ''D4'']"

section \<open>Properties of generate_mcq\<close>

declare digits.simps [simp del]

lemmas generate_loop_induct = generate_loop.raw_induct[rotated 1, consumes 1, case_names step]

text \<open>One turn of the loop, by what the oracle gives.\<close>

lemma generate_loop_full:
  "\<not> length opts < 4 \<Longrightarrow> generate_loop run q opts s = Some (Inr opts, s)"
  by (subst generate_loop.simps) simp

lemma generate_loop_raise:
  "length opts < 4 \<Longrightarrow> run s (distractor_prompt q) = (Inl e, s1) \<Longrightarrow>
   generate_loop run q opts s = Some (Inl e, s1)"
  by (subst generate_loop.simps) simp

lemma generate_loop_accept:
  "length opts < 4 \<Longrightarrow> run s (distractor_prompt q) = (Inr a, s1) \<Longrightarrow>
   a \<notin> set opts \<Longrightarrow> strip a \<noteq> [] \<Longrightarrow>
   generate_loop run q opts s = generate_loop run q (opts @ [a]) s1"
  by (subst generate_loop.simps) simp

lemma generate_loop_reject:
  "length opts < 4 \<Longrightarrow> run s (distractor_prompt q) = (Inr a, s1) \<Longrightarrow>
   a \<in> set opts \<or> strip a = [] \<Longrightarrow>
   generate_loop run q opts s = generate_loop run q opts s1"
  by (subst generate_loop.simps) auto

text \<open>
  What holds of the options when the loop returns them: they extend the options the loop
  started with by non-blank texts, stay distinct, and there are four of them.
\<close>

lemma generate_loop_result_aux:
  fixes run :: "'s qa_chain"
  assumes "generate_loop run q opts s = Some y"
  shows "\<forall>res s'. y = (Inr res, s') \<longrightarrow>
      (\<exists>ys. res = opts @ ys \<and> (\<forall>a\<in>set ys. strip a \<noteq> [])) \<and>
      (distinct opts \<longrightarrow> distinct res) \<and>
      (length opts \<le> 4 \<longrightarrow> length res = 4)"
  using assms
proof (induct run q opts s y rule: generate_loop_induct)
  case (step loop run q opts s y)
  note IH = step(1) and body = step(2)
  show ?case
  proof (cases "length opts < 4")
    case False
    with body show ?thesis by auto
  next
    case small: True
    obtain r s1 where r: "run s (distractor_prompt q) = (r, s1)"
      by (cases "run s (distractor_prompt q)")
    show ?thesis
    proof (cases r)
      case (Inl e)
      with body small r show ?thesis by auto
    next
      case (Inr a)
      show ?thesis
      proof (cases "a \<notin> set opts \<and> 0 < length (strip a)")
        case True
        with body small r Inr have "loop run q (opts @ [a]) s1 = Some y" by simp
        from IH[OF this] True small show ?thesis by auto
      next
        case False
        with body small r Inr have "loop run q opts s1 = Some y" by auto
        from IH[OF this] show ?thesis by auto
      qed
    qed
  qed
qed

lemma generate_loop_result:
  "generate_loop run q opts s = Some (Inr res, s') \<Longrightarrow>
     (\<exists>ys. res = opts @ ys \<and> (\<forall>a\<in>set ys. strip a \<noteq> [])) \<and>
     (distinct opts \<longrightarrow> distinct res) \<and> (length opts \<le> 4 \<longrightarrow> length res = 4)"
  using generate_loop_result_aux[of run q opts s "(Inr res, s')"] by simp

text \<open>The shuffle permutes.\<close>

lemma shuffle_from_mset:
  "i < length xs \<Longrightarrow> mset (fst (shuffle_from i rnd xs)) = mset xs"
proof (induction i arbitrary: rnd xs)
  case 0
  then show ?case by simp
next
  case (Suc i)
  let ?j = "rnd 0 mod Suc (Suc i)"
  have "?j < Suc (Suc i)" by simp
  with Suc.prems have j: "?j < length xs" by linarith
  have "mset (xs[Suc i := xs ! ?j, ?j := xs ! Suc i]) = mset xs"
    using mset_swap[OF j Suc.prems] .
  moreover have "i < length (xs[Suc i := xs ! ?j, ?j := xs ! Suc i])"
    using Suc.prems by simp
  ultimately show ?case using Suc.IH by (simp add: Let_def)
qed

lemma shuffle_mset: "mset (fst (shuffle rnd xs)) = mset xs"
proof (cases xs)
  case Nil
  then show ?thesis by (simp add: shuffle_def)
next
  case (Cons x ys)
  then show ?thesis unfolding shuffle_def by (intro shuffle_from_mset) simp
qed

lemma generate_mcq_result:
  assumes "generate_mcq question correct_answer run s rnd = Some (Inr options, s', rnd')"
  shows "\<exists>res. generate_loop run question [correct_answer] s = Some (Inr res, s') \<and>
           mset options = mset res"
proof -
  from assms obtain y where y: "generate_loop run question [correct_answer] s = Some y"
    by (auto simp: generate_mcq_def split: option.splits)
  obtain r s1 where ys: "y = (r, s1)" by (cases y)
  from assms y ys obtain res where r: "r = Inr res"
    by (cases r) (auto simp: generate_mcq_def)
  from assms y ys r have "options = fst (shuffle rnd res)" and "s1 = s'"
    by (auto simp: generate_mcq_def split: prod.splits)
  with shuffle_mset[of rnd res] y ys r show ?thesis by auto
qed

text \<open>Concrete runs of the loop and of the shuffle.\<close>

lemma paris_loop:
  "generate_loop scripted ''Q'' [''Paris''] [''Paris'', ''London'', ''  '', ''Berlin'', ''Rome'']
     = Some (Inr [''Paris'', ''London'', ''Berlin'', ''Rome''], [])"
  apply (subst generate_loop.simps, simp add: scripted_def strip_def is_space_def)
  apply (subst generate_loop.simps, simp add: scripted_def strip_def is_space_def)
  apply (subst generate_loop.simps, simp add: scripted_def strip_def is_space_def)
  apply (subst generate_loop.simps, simp add: scripted_def strip_def is_space_def)
  apply (subst generate_loop.simps, simp add: scripted_def strip_def is_space_def)
  apply (subst generate_loop.simps, simp add: scripted_def strip_def is_space_def)
  done

lemma paris_mcq:
  "generate_mcq ''Q'' ''Paris'' scripted [''Paris'', ''London'', ''  '', ''Berlin'', ''Rome'']
     (\<lambda>_. 0) = Some (Inr [''London'', ''Berlin'', ''Rome'', ''Paris''], [], \<lambda>_. 0)"
  by (simp add: generate_mcq_def paris_loop shuffle_def)

lemma blank_answer_loop:
  "generate_loop scripted ''Q'' [[]] [''A'', ''B'', ''C''] = Some (Inr [[], ''A'', ''B'', ''C''], [])"
  apply (subst generate_loop.simps, simp add: scripted_def strip_def is_space_def)
  apply (subst generate_loop.simps, simp add: scripted_def strip_def is_space_def)
  apply (subst generate_loop.simps, simp add: scripted_def strip_def is_space_def)
  apply (subst generate_loop.simps, simp add: scripted_def strip_def is_space_def)
  done

lemma spaced_loop:
  "generate_loop scripted ''Q'' [''Paris''] ['' Paris'', ''Paris '', ''  Paris'']
     = Some (Inr [''Paris'', '' Paris'', ''Paris '', ''  Paris''], [])"
  apply (subst generate_loop.simps, simp add: scripted_def strip_def is_space_def)
  apply (subst generate_loop.simps, simp add: scripted_def strip_def is_space_def)
  apply (subst generate_loop.simps, simp add: scripted_def strip_def is_space_def)
  apply (subst generate_loop.simps, simp add: scripted_def strip_def is_space_def)
  done

lemma spaced_mcq:
  "generate_mcq ''Q'' ''Paris'' scripted ['' Paris'', ''Paris '', ''  Paris''] (\<lambda>_. 0)
     = Some (Inr ['' Paris'', ''Paris '', ''  Paris'', ''Paris''], [], \<lambda>_. 0)"
  by (simp add: generate_mcq_def spaced_loop shuffle_def)

text \<open>
  C1. The options generate_mcq returns are four, pairwise distinct, with exactly one of
  them the correct answer, and every option other than the correct answer is non-empty
  after trimming; a candidate that is already an option or blank after trimming is
  dropped and the oracle is asked again. The correct answer itself is taken as given.
\<close>

theorem generate_mcq_options_well_formed:
  fixes run :: "'s qa_chain"
  shows "(generate_mcq question correct_answer run s rnd = Some (Inr options, s', rnd') \<longrightarrow>
            length options = 4 \<and> distinct options \<and> count_list options correct_answer = 1 \<and>
            (\<forall>x\<in>set options. x \<noteq> correct_answer \<longrightarrow> strip x \<noteq> [])) \<and>
         (length opts < 4 \<and> run t (distractor_prompt question) = (Inr fake, t') \<and>
            (fake \<in> set opts \<or> strip fake = []) \<longrightarrow>
            generate_loop run question opts t = generate_loop run question opts t')"
proof (intro conjI impI)
  assume g: "generate_mcq question correct_answer run s rnd = Some (Inr options, s', rnd')"
  from generate_mcq_result[OF g] obtain res where
    loop: "generate_loop run question [correct_answer] s = Some (Inr res, s')" and
    ms: "mset options = mset res" by blast
  from generate_loop_result[OF loop] obtain ys where
    res: "res = [correct_answer] @ ys" and ne: "\<forall>a\<in>set ys. strip a \<noteq> []" and
    d: "distinct res" and l: "length res = 4" by auto
  from l show "length options = 4" using mset_eq_length[OF ms] by simp
  from d show "distinct options" using mset_eq_imp_distinct_iff[OF ms] by simp
  have "count_list res correct_answer = 1" using d res by (simp add: count_list_0_iff)
  then show "count_list options correct_answer = 1"
    using mset_eq_length_filter[OF ms, of correct_answer] by simp
  from ms have "set options = set res" by (rule mset_eq_setD)
  with res ne show "\<forall>x\<in>set options. x \<noteq> correct_answer \<longrightarrow> strip x \<noteq> []" by auto
next
  assume "length opts < 4 \<and> run t (distractor_prompt question) = (Inr fake, t') \<and>
            (fake \<in> set opts \<or> strip fake = [])"
  then show "generate_loop run question opts t = generate_loop run question opts t'"
    using generate_loop_reject[of opts run t question fake t'] by blast
qed

theorem generate_mcq_options_well_formed_witness:
  "generate_mcq ''Q'' ''Paris'' scripted [''Paris'', ''London'', ''  '', ''Berlin'', ''Rome'']
     (\<lambda>_. 0) = Some (Inr [''London'', ''Berlin'', ''Rome'', ''Paris''], [], \<lambda>_. 0) \<and>
   length [''London'', ''Berlin'', ''Rome'', ''Paris''] = 4 \<and>
   distinct [''London'', ''Berlin'', ''Rome'', ''Paris''] \<and>
   count_list [''London'', ''Berlin'', ''Rome'', ''Paris''] ''Paris'' = 1 \<and>
   strip ''London'' \<noteq> [] \<and> strip ''Berlin'' \<noteq> [] \<and> strip ''Rome'' \<noteq> [] \<and>
   scripted [''Paris'', ''London'', ''  '', ''Berlin'', ''Rome''] (distractor_prompt ''Q'')
     = (Inr ''Paris'', [''London'', ''  '', ''Berlin'', ''Rome'']) \<and>
   generate_loop scripted ''Q'' [''Paris''] [''Paris'', ''London'', ''  '', ''Berlin'', ''Rome'']
     = generate_loop scripted ''Q'' [''Paris''] [''London'', ''  '', ''Berlin'', ''Rome'']"
proof -
  have ask: "scripted [''Paris'', ''London'', ''  '', ''Berlin'', ''Rome''] (distractor_prompt ''Q'')
     = (Inr ''Paris'', [''London'', ''  '', ''Berlin'', ''Rome''])"
    by (simp add: scripted_def)
  note wf = generate_mcq_options_well_formed[where question = "''Q''" and correct_answer = "''Paris''"
      and run = scripted and s = "[''Paris'', ''London'', ''  '', ''Berlin'', ''Rome'']"
      and rnd = "\<lambda>_. 0" and options = "[''London'', ''Berlin'', ''Rome'', ''Paris'']"
      and s' = "[]" and rnd' = "\<lambda>_. 0" and opts = "[''Paris'']"
      and t = "[''Paris'', ''London'', ''  '', ''Berlin'', ''Rome'']" and fake = "''Paris''"
      and t' = "[''London'', ''  '', ''Berlin'', ''Rome'']"]
  from wf paris_mcq ask show ?thesis by simp
qed

theorem generate_mcq_blank_correct_answer:
  "generate_mcq ''Q'' [] scripted [''A'', ''B'', ''C''] (\<lambda>_. 0)
     = Some (Inr [''A'', ''B'', ''C'', []], [], \<lambda>_. 0) \<and>
   [] \<in> set [''A'', ''B'', ''C'', []] \<and> strip [] = []"
  by (simp add: generate_mcq_def blank_answer_loop shuffle_def strip_def)

lemma generate_loop_keeps:
  "generate_loop run q opts s = Some (Inr res, s') \<Longrightarrow> set opts \<subseteq> set res"
  using generate_loop_result[of run q opts s res s'] by auto

text \<open>
  C9. The duplicate check is on the raw text: a candidate that is not literally among the
  options is kept, as the oracle gave it, unless it is blank after trimming, so a text
  that differs from an option only by surrounding whitespace becomes an option of its
  own and is returned untrimmed.
\<close>

theorem generate_mcq_compares_untrimmed:
  fixes run :: "'s qa_chain"
  assumes "length opts < 4"
    and "run s (distractor_prompt question) = (Inr fake, t)"
    and "fake \<notin> set opts"
  shows "generate_loop run question opts s
           = generate_loop run question (if strip fake = [] then opts else opts @ [fake]) t \<and>
         (strip fake \<noteq> [] \<longrightarrow>
            (\<forall>res s'. generate_loop run question opts s = Some (Inr res, s') \<longrightarrow> fake \<in> set res) \<and>
            (opts = [correct_answer] \<longrightarrow>
               (\<forall>options s' rnd'.
                  generate_mcq question correct_answer run s rnd = Some (Inr options, s', rnd') \<longrightarrow>
                  fake \<in> set options)))"
proof (cases "strip fake = []")
  case True
  with assms show ?thesis using generate_loop_reject[of opts run s question fake t] by simp
next
  case False
  with assms have step: "generate_loop run question opts s
      = generate_loop run question (opts @ [fake]) t"
    by (intro generate_loop_accept)
  have kept: "fake \<in> set res" if "generate_loop run question opts s = Some (Inr res, s')" for res s'
    using generate_loop_keeps[of run question "opts @ [fake]" t res s'] that step by simp
  have "fake \<in> set options"
    if o: "opts = [correct_answer]"
      and g: "generate_mcq question correct_answer run s rnd = Some (Inr options, s', rnd')"
    for options s' rnd'
  proof -
    from generate_mcq_result[OF g] obtain res where
      loop: "generate_loop run question [correct_answer] s = Some (Inr res, s')" and
      ms: "mset options = mset res" by blast
    from kept[of res s'] loop o have "fake \<in> set res" by simp
    with mset_eq_setD[OF ms] show ?thesis by simp
  qed
  with False step kept show ?thesis by auto
qed

theorem generate_mcq_compares_untrimmed_witness:
  "length [''Paris''] < 4 \<and>
   scripted ['' Paris'', ''Paris '', ''  Paris''] (distractor_prompt ''Q'')
     = (Inr '' Paris'', [''Paris '', ''  Paris'']) \<and>
   '' Paris'' \<notin> set [''Paris''] \<and> strip '' Paris'' = ''Paris'' \<and>
   generate_loop scripted ''Q'' [''Paris''] ['' Paris'', ''Paris '', ''  Paris'']
     = generate_loop scripted ''Q'' [''Paris'', '' Paris''] [''Paris '', ''  Paris''] \<and>
   generate_mcq ''Q'' ''Paris'' scripted ['' Paris'', ''Paris '', ''  Paris''] (\<lambda>_. 0)
     = Some (Inr ['' Paris'', ''Paris '', ''  Paris'', ''Paris''], [], \<lambda>_. 0) \<and>
   '' Paris'' \<in> set ['' Paris'', ''Paris '', ''  Paris'', ''Paris'']"
proof -
  have len: "length [''Paris''] < 4" by simp
  have ask: "scripted ['' Paris'', ''Paris '', ''  Paris''] (distractor_prompt ''Q'')
     = (Inr '' Paris'', [''Paris '', ''  Paris''])"
    by (simp add: scripted_def)
  have new: "'' Paris'' \<notin> set [''Paris'']" by simp
  have trimmed: "strip '' Paris'' = ''Paris''" by (simp add: strip_def is_space_def)
  from generate_mcq_compares_untrimmed[where run = scripted and question = "''Q''"
      and opts = "[''Paris'']" and s = "['' Paris'', ''Paris '', ''  Paris'']"
      and fake = "'' Paris''" and t = "[''Paris '', ''  Paris'']"
      and correct_answer = "''Paris''" and rnd = "\<lambda>_. 0", OF len ask new] trimmed
  have "generate_loop scripted ''Q'' [''Paris''] ['' Paris'', ''Paris '', ''  Paris'']
     = generate_loop scripted ''Q'' [''Paris'', '' Paris''] [''Paris '', ''  Paris'']"
    by simp
  with len ask new trimmed spaced_mcq show ?thesis by simp
qed

section \<open>Termination of the distractor loop\<close>

lemma generate_loop_stuck_aux:
  fixes run :: "'s qa_chain"
  assumes "generate_loop run q opts s = Some y"
  shows "\<not> (length opts < 4 \<and>
            (\<forall>t. \<exists>a t'. run t (distractor_prompt q) = (Inr a, t') \<and> (a \<in> set opts \<or> strip a = [])))"
  using assms
proof (induct run q opts s y rule: generate_loop_induct)
  case (step loop run q opts s y)
  show ?case
  proof
    assume stuck: "length opts < 4 \<and>
            (\<forall>t. \<exists>a t'. run t (distractor_prompt q) = (Inr a, t') \<and> (a \<in> set opts \<or> strip a = []))"
    then obtain a t' where a: "run s (distractor_prompt q) = (Inr a, t')"
      and rej: "a \<in> set opts \<or> strip a = []" by blast
    with stuck step(2) have "loop run q opts t' = Some y" by auto
    from step(1)[OF this] stuck show False by blast
  qed
qed

lemma generate_loop_stuck:
  assumes "length opts < 4"
    and "\<forall>t. \<exists>a t'. run t (distractor_prompt q) = (Inr a, t') \<and> (a \<in> set opts \<or> strip a = [])"
  shows "generate_loop run q opts s = None"
proof (cases "generate_loop run q opts s")
  case None
  then show ?thesis .
next
  case (Some y)
  from generate_loop_stuck_aux[OF Some] assms show ?thesis by blast
qed

lemma generate_loop_error_aux:
  fixes run :: "'s qa_chain"
  assumes "generate_loop run q opts s = Some y"
  shows "\<forall>e s'. y = (Inl e, s') \<longrightarrow> (\<exists>t. run t (distractor_prompt q) = (Inl e, s'))"
  using assms
proof (induct run q opts s y rule: generate_loop_induct)
  case (step loop run q opts s y)
  note IH = step(1) and body = step(2)
  show ?case
  proof (cases "length opts < 4")
    case False
    with body show ?thesis by auto
  next
    case small: True
    obtain r s1 where r: "run s (distractor_prompt q) = (r, s1)"
      by (cases "run s (distractor_prompt q)")
    show ?thesis
    proof (cases r)
      case (Inl e)
      with body small r show ?thesis by auto
    next
      case (Inr a)
      with body small r
      have "loop run q (opts @ [a]) s1 = Some y \<or> loop run q opts s1 = Some y"
        by (auto split: if_splits)
      with IH show ?thesis by blast
    qed
  qed
qed

lemma length_fresh_candidates:
  "length (fresh_candidates opts rs) = card {a \<in> set (texts rs). a \<notin> set opts \<and> strip a \<noteq> []}"
proof -
  have "set (filter (\<lambda>a. a \<notin> set opts \<and> strip a \<noteq> []) (texts rs))
      = {a \<in> set (texts rs). a \<notin> set opts \<and> strip a \<noteq> []}" by auto
  then show ?thesis
    unfolding fresh_candidates_def by (simp only: length_remdups_card_conv)
qed

lemma generate_loop_returns:
  fixes run :: "'s qa_chain"
  shows "4 \<le> length opts + length (fresh_candidates opts (responses n run (distractor_prompt q) s))
    \<Longrightarrow> \<exists>y. generate_loop run q opts s = Some y"
proof (induction n arbitrary: opts s)
  case 0
  then have "\<not> length opts < 4" by (simp add: fresh_candidates_def)
  then show ?case by (simp add: generate_loop_full)
next
  case (Suc n)
  show ?case
  proof (cases "length opts < 4")
    case False
    then show ?thesis by (simp add: generate_loop_full)
  next
    case small: True
    obtain r s1 where r: "run s (distractor_prompt q) = (r, s1)"
      by (cases "run s (distractor_prompt q)")
    let ?rest = "responses n run (distractor_prompt q) s1"
    let ?F = "\<lambda>opts. {a \<in> set (texts ?rest). a \<notin> set opts \<and> strip a \<noteq> []}"
    show ?thesis
    proof (cases r)
      case (Inl e)
      with small r show ?thesis by (simp add: generate_loop_raise)
    next
      case (Inr a)
      from Suc.prems r Inr
      have many: "4 \<le> length opts + card {b \<in> insert a (set (texts ?rest)). b \<notin> set opts \<and> strip b \<noteq> []}"
        by (simp add: length_fresh_candidates)
      show ?thesis
      proof (cases "a \<notin> set opts \<and> strip a \<noteq> []")
        case True
        have eq: "{b \<in> insert a (set (texts ?rest)). b \<notin> set opts \<and> strip b \<noteq> []}
            = insert a (?F (opts @ [a]))" using True by auto
        have "a \<notin> ?F (opts @ [a])" by simp
        moreover have "finite (?F (opts @ [a]))" by simp
        ultimately have "card (insert a (?F (opts @ [a]))) = Suc (card (?F (opts @ [a])))"
          by (rule card_insert_disjoint[rotated])
        with many eq have "4 \<le> length (opts @ [a]) + card (?F (opts @ [a]))" by simp
        then have "\<exists>y. generate_loop run q (opts @ [a]) s1 = Some y"
          by (intro Suc.IH) (simp add: length_fresh_candidates)
        moreover have "generate_loop run q opts s = generate_loop run q (opts @ [a]) s1"
          using small r Inr True by (intro generate_loop_accept) auto
        ultimately show ?thesis by simp
      next
        case False
        then have eq: "{b \<in> insert a (set (texts ?rest)). b \<notin> set opts \<and> strip b \<noteq> []} = ?F opts"
          by auto
        with many have "4 \<le> length opts + card (?F opts)" by simp
        then have "\<exists>y. generate_loop run q opts s1 = Some y"
          by (intro Suc.IH) (simp add: length_fresh_candidates)
        moreover have "generate_loop run q opts s = generate_loop run q opts s1"
          using small r Inr False by (intro generate_loop_reject) auto
        ultimately show ?thesis by simp
      qed
    qed
  qed
qed

lemma repeating_loop: "generate_loop (repeating ''Paris'') q [''Paris''] () = None"
  by (rule generate_loop_stuck) (simp_all add: repeating_def)

lemma generate_loop_returns_on_raise:
  fixes run :: "'s qa_chain"
  shows "Inl e \<in> set (responses n run (distractor_prompt q) s)
    \<Longrightarrow> \<exists>y. generate_loop run q opts s = Some y"
proof (induction n arbitrary: opts s)
  case 0
  then show ?case by simp
next
  case (Suc n)
  show ?case
  proof (cases "length opts < 4")
    case False
    then show ?thesis by (simp add: generate_loop_full)
  next
    case small: True
    obtain r s1 where r: "run s (distractor_prompt q) = (r, s1)"
      by (cases "run s (distractor_prompt q)")
    show ?thesis
    proof (cases r)
      case (Inl e')
      with small r show ?thesis by (simp add: generate_loop_raise)
    next
      case (Inr a)
      with Suc.prems r have later: "Inl e \<in> set (responses n run (distractor_prompt q) s1)"
        by auto
      show ?thesis
      proof (cases "a \<notin> set opts \<and> strip a \<noteq> []")
        case True
        with small r Inr
        have "generate_loop run q opts s = generate_loop run q (opts @ [a]) s1"
          by (intro generate_loop_accept) auto
        with Suc.IH[OF later, of "opts @ [a]"] show ?thesis by simp
      next
        case False
        with small r Inr
        have "generate_loop run q opts s = generate_loop run q opts s1"
          by (intro generate_loop_reject) auto
        with Suc.IH[OF later, of opts] show ?thesis by simp
      qed
    qed
  qed
qed

text \<open>
  C3. The distractor loop has no bound on its oracle calls and no error of its own. It
  returns when, within some number of calls, the oracle has given enough distinct
  acceptable texts to fill the four options or has raised; a call that raises while an
  option is still missing ends the loop at once with that error; the only error the
  loop returns is one the oracle raised; and with an oracle that only ever gives texts
  already among the options, or blank texts, it never returns.
\<close>

theorem generate_loop_termination:
  fixes run :: "'s qa_chain"
  shows "(4 \<le> length opts + length (fresh_candidates opts (responses n run (distractor_prompt question) s))
          \<or> (\<exists>e. Inl e \<in> set (responses n run (distractor_prompt question) s))
            \<longrightarrow> (\<exists>y. generate_loop run question opts s = Some y)) \<and>
         (length opts < 4 \<and> run s (distractor_prompt question) = (Inl e, s')
            \<longrightarrow> generate_loop run question opts s = Some (Inl e, s')) \<and>
         (generate_loop run question opts s = Some (Inl e, s')
            \<longrightarrow> (\<exists>t. run t (distractor_prompt question) = (Inl e, s'))) \<and>
         (length opts < 4 \<and>
          (\<forall>t. \<exists>a t'. run t (distractor_prompt question) = (Inr a, t') \<and> (a \<in> set opts \<or> strip a = []))
            \<longrightarrow> generate_loop run question opts s = None)"
proof (intro conjI impI)
  assume "4 \<le> length opts + length (fresh_candidates opts (responses n run (distractor_prompt question) s))
          \<or> (\<exists>e. Inl e \<in> set (responses n run (distractor_prompt question) s))"
  then show "\<exists>y. generate_loop run question opts s = Some y"
  proof
    assume "4 \<le> length opts + length (fresh_candidates opts (responses n run (distractor_prompt question) s))"
    then show ?thesis by (rule generate_loop_returns)
  next
    assume "\<exists>e. Inl e \<in> set (responses n run (distractor_prompt question) s)"
    then obtain e' where "Inl e' \<in> set (responses n run (distractor_prompt question) s)" ..
    then show ?thesis by (rule generate_loop_returns_on_raise)
  qed
next
  assume "length opts < 4 \<and> run s (distractor_prompt question) = (Inl e, s')"
  then show "generate_loop run question opts s = Some (Inl e, s')"
    using generate_loop_raise[of opts run s question e s'] by simp
next
  assume "generate_loop run question opts s = Some (Inl e, s')"
  then show "\<exists>t. run t (distractor_prompt question) = (Inl e, s')"
    using generate_loop_error_aux[of run question opts s "(Inl e, s')"] by simp
next
  assume "length opts < 4 \<and>
          (\<forall>t. \<exists>a t'. run t (distractor_prompt question) = (Inr a, t') \<and> (a \<in> set opts \<or> strip a = []))"
  then show "generate_loop run question opts s = None"
    using generate_loop_stuck[of opts run question s] by blast
qed

lemma paris_responses:
  "responses 5 scripted (distractor_prompt ''Q'') [''Paris'', ''London'', ''  '', ''Berlin'', ''Rome'']
     = [Inr ''Paris'', Inr ''London'', Inr ''  '', Inr ''Berlin'', Inr ''Rome'']"
  by code_simp

lemma failing_responses:
  "responses 2 scripted (distractor_prompt ''Q'') [''London''] = [Inr ''London'', Inl OracleError]"
  by code_simp

theorem generate_loop_termination_witness:
  "fresh_candidates [''Paris'']
     (responses 5 scripted (distractor_prompt ''Q'') [''Paris'', ''London'', ''  '', ''Berlin'', ''Rome''])
     = [''London'', ''Berlin'', ''Rome''] \<and>
   generate_loop scripted ''Q'' [''Paris''] [''Paris'', ''London'', ''  '', ''Berlin'', ''Rome'']
     = Some (Inr [''Paris'', ''London'', ''Berlin'', ''Rome''], []) \<and>
   responses 2 scripted (distractor_prompt ''Q'') [''London''] = [Inr ''London'', Inl OracleError] \<and>
   generate_loop scripted ''Q'' [''Paris''] [''London''] = Some (Inl OracleError, []) \<and>
   scripted [] (distractor_prompt ''Q'') = (Inl OracleError, []) \<and>
   generate_loop scripted ''Q'' [''Paris'', ''London''] [] = Some (Inl OracleError, []) \<and>
   repeating ''Paris'' () (distractor_prompt ''Q'') = (Inr ''Paris'', ()) \<and>
   generate_loop (repeating ''Paris'') ''Q'' [''Paris''] () = None"
proof -
  have fresh: "fresh_candidates [''Paris'']
     (responses 5 scripted (distractor_prompt ''Q'') [''Paris'', ''London'', ''  '', ''Berlin'', ''Rome''])
     = [''London'', ''Berlin'', ''Rome'']"
    by (simp add: paris_responses fresh_candidates_def strip_def is_space_def)
  have ask: "scripted [] (distractor_prompt ''Q'') = (Inl OracleError, [])"
    by (simp add: scripted_def)
  have short: "length [''Paris'', ''London''] < 4" by simp
  from generate_loop_termination[where run = scripted and question = "''Q''" and n = 0
      and opts = "[''Paris'', ''London'']" and s = "[]" and e = OracleError and s' = "[]",
      THEN conjunct2, THEN conjunct1] short ask
  have raised: "generate_loop scripted ''Q'' [''Paris'', ''London''] [] = Some (Inl OracleError, [])"
    by blast
  have "generate_loop scripted ''Q'' [''Paris''] [''London'']
      = generate_loop scripted ''Q'' [''Paris'', ''London''] []"
    by (subst generate_loop.simps) (simp add: scripted_def strip_def is_space_def)
  with raised have later: "generate_loop scripted ''Q'' [''Paris''] [''London''] = Some (Inl OracleError, [])"
    by simp
  have same: "\<forall>t. \<exists>a t'. repeating ''Paris'' t (distractor_prompt ''Q'') = (Inr a, t') \<and>
      (a \<in> set [''Paris''] \<or> strip a = [])"
    by (simp add: repeating_def)
  have one: "length [''Paris''] < 4" by simp
  from generate_loop_termination[where run = "repeating ''Paris''" and question = "''Q''"
      and opts = "[''Paris'']" and s = "()" and n = 0 and e = OracleError and s' = "()",
      THEN conjunct2, THEN conjunct2, THEN conjunct2] one same
  have never: "generate_loop (repeating ''Paris'') ''Q'' [''Paris''] () = None" by blast
  have rep: "repeating ''Paris'' () (distractor_prompt ''Q'') = (Inr ''Paris'', ())"
    by (simp add: repeating_def)
  from fresh paris_loop failing_responses later ask raised rep never show ?thesis
    by (intro conjI)
qed

theorem generate_never_returns:
  "generate_mcq ''Paris'' ''Paris'' (repeating ''Paris'') () (\<lambda>_. 0) = None \<and>
   run_script (repeating ''Paris'') (idle\<lparr>generate_clicked := True\<rparr>) (processed_world ()) = None"
proof -
  have mcq: "generate_mcq ''Paris'' ''Paris'' (repeating ''Paris'') () rnd = None" for rnd
    by (simp add: generate_mcq_def repeating_loop)
  have ask: "repeating ''Paris'' () p = (Inr ''Paris'', ())" for p
    by (simp add: repeating_def)
  have gen: "generate_section (idle\<lparr>generate_clicked := True\<rparr>) (repeating ''Paris'')
      (processed_world ()) = None"
    by (simp add: generate_section_def processed_world_def empty_session_def eval_nat_numeral ask mcq)
  have "upload_section (idle\<lparr>generate_clicked := True\<rparr>) (processed_world ())
      = (Inr (), processed_world ())"
    by (simp add: upload_section_def idle_def)
  with gen mcq show ?thesis by (simp add: run_script_def)
qed

section \<open>The sections of the script\<close>

text \<open>The upload handler touches neither the quiz nor the oracle.\<close>

lemma upload_section_frame:
  assumes "upload_section inp w = (r, w1)"
  shows "questions (session w1) = questions (session w) \<and>
         score (session w1) = score (session w) \<and>
         current_question (session w1) = current_question (session w) \<and>
         (pdf_processed (session w) \<longrightarrow> pdf_processed (session w1)) \<and>
         chain_state w1 = chain_state w \<and> rnd_state w1 = rnd_state w"
  using assms by (auto simp: upload_section_def split: if_splits save_result.splits)

lemma upload_section_processed:
  "pdf_processed (session w) \<Longrightarrow> upload_section inp w = (Inr (), w)"
  by (simp add: upload_section_def)

lemma generate_section_noop:
  "questions (session w) \<noteq> None \<Longrightarrow> generate_section inp run w = Some (Inr (), w)"
  by (auto simp: generate_section_def)

text \<open>
  The loop over the four questions only appends to the questions list, and it has
  appended once per completed turn.
\<close>

lemma generate_questions_result:
  fixes run :: "'s qa_chain"
  shows "questions (session w) = Some qs0 \<Longrightarrow> generate_questions n run w = Some (out, w') \<Longrightarrow>
    \<exists>qs. questions (session w') = Some (qs0 @ qs) \<and>
      score (session w') = score (session w) \<and>
      current_question (session w') = current_question (session w) \<and>
      pdf_processed (session w') = pdf_processed (session w) \<and>
      qa_chain (session w') = qa_chain (session w) \<and>
      temp_file w' = temp_file w \<and>
      (case out of Inl e \<Rightarrow> length qs < n | Inr u \<Rightarrow> length qs = n)"
proof (induction n arbitrary: w qs0)
  case 0
  then show ?case by auto
next
  case (Suc n)
  show ?case
  proof (cases "qa_chain (session w)")
    case False
    with Suc.prems show ?thesis by auto
  next
    case chain: True
    obtain r1 s1 where r1: "run (chain_state w) question_prompt = (r1, s1)"
      by (cases "run (chain_state w) question_prompt")
    show ?thesis
    proof (cases r1)
      case (Inl e)
      with Suc.prems chain r1 show ?thesis by auto
    next
      case q: (Inr question)
      obtain r2 s2 where r2: "run s1 (answer_prompt question) = (r2, s2)"
        by (cases "run s1 (answer_prompt question)")
      show ?thesis
      proof (cases r2)
        case (Inl e)
        with Suc.prems chain r1 q r2 show ?thesis by auto
      next
        case a: (Inr correct_answer)
        from Suc.prems chain r1 q r2 a
        obtain r3 s3 rnd3 where
          r3: "generate_mcq question correct_answer run s2 (rnd_state w) = Some (r3, s3, rnd3)"
          by (cases "generate_mcq question correct_answer run s2 (rnd_state w)") auto
        show ?thesis
        proof (cases r3)
          case (Inl e)
          with Suc.prems chain r1 q r2 a r3 show ?thesis by auto
        next
          case o: (Inr options)
          let ?w = "w\<lparr>session := (session w)
                        \<lparr>questions := Some (qs0 @ [(question, options, correct_answer)])\<rparr>,
                      chain_state := s3, rnd_state := rnd3\<rparr>"
          from Suc.prems chain r1 q r2 a r3 o
          have rest: "generate_questions n run ?w = Some (out, w')" by simp
          have "questions (session ?w) = Some (qs0 @ [(question, options, correct_answer)])"
            by simp
          from Suc.IH[OF this rest] show ?thesis by (auto split: sum.splits)
        qed
      qed
    qed
  qed
qed

text \<open>The quiz section in a run without a click on Submit or Next.\<close>

lemma quiz_section_idle:
  "\<not> submit_clicked inp \<Longrightarrow> \<not> next_clicked inp \<Longrightarrow> snd (quiz_section inp ss) = ss"
  by (auto simp: quiz_section_def submit_answer_def advance_def
      split: option.splits sum.splits prod.splits)

text \<open>The quiz section while a question is shown, and after the last one.\<close>

lemma quiz_section_in_progress:
  assumes "questions ss = Some qs" and "current_question ss = Some c"
    and "0 \<le> c" and "c < int (length qs)" and "score ss = Some sc"
    and "qs ! nat c = (q, opts, correct)"
  shows "quiz_section inp ss =
    (Inr (QuestionView (c + 1) q opts
            (if submit_clicked inp
             then Some (if selected_option inp = correct then Correct else Wrong) else None)),
     ss\<lparr>score := Some (if submit_clicked inp \<and> selected_option inp = correct then sc + 1 else sc),
        current_question := Some (if next_clicked inp then c + 1 else c)\<rparr>)"
  using assms
  by (cases ss) (auto simp: quiz_section_def py_index_def submit_answer_def advance_def)

lemma quiz_section_completed:
  "questions ss = Some qs \<Longrightarrow> current_question ss = Some c \<Longrightarrow> \<not> c < int (length qs) \<Longrightarrow>
   quiz_section inp ss = (summary ss qs, ss)"
  by (simp add: quiz_section_def)

text \<open>Runs with the scripted oracle and a generator that always draws 0.\<close>

lemma scripted_loop:
  assumes "distinct [a, b, c, d]" and "strip b \<noteq> []" and "strip c \<noteq> []" and "strip d \<noteq> []"
  shows "generate_loop scripted q [a] (b # c # d # rest) = Some (Inr [a, b, c, d], rest)"
proof -
  have "generate_loop scripted q [a] (b # c # d # rest) = generate_loop scripted q [a, b] (c # d # rest)"
    using assms by (subst generate_loop.simps) (auto simp: scripted_def)
  also have "\<dots> = generate_loop scripted q [a, b, c] (d # rest)"
    using assms by (subst generate_loop.simps) (auto simp: scripted_def)
  also have "\<dots> = generate_loop scripted q [a, b, c, d] rest"
    using assms by (subst generate_loop.simps) (auto simp: scripted_def)
  also have "\<dots> = Some (Inr [a, b, c, d], rest)"
    by (simp add: generate_loop_full)
  finally show ?thesis .
qed

lemma scripted_mcq:
  assumes "distinct [a, b, c, d]" and "strip b \<noteq> []" and "strip c \<noteq> []" and "strip d \<noteq> []"
  shows "generate_mcq q a scripted (b # c # d # rest) (\<lambda>_. 0) = Some (Inr [b, c, d, a], rest, \<lambda>_. 0)"
  by (simp add: generate_mcq_def scripted_loop[OF assms] shuffle_def)

lemma scripted_ask: "scripted (r # rs) p = (Inr r, rs)" and scripted_end: "scripted [] p = (Inl OracleError, [])"
  by (simp_all add: scripted_def)

lemma demo_upload_run:
  "run_script scripted (idle\<lparr>uploaded_file := True\<rparr>) (fresh_world s)
     = Some (Inr NoQuiz, processed_world s)"
  by (simp add: run_script_def upload_section_def generate_section_def quiz_section_def
      cleanup_def idle_def fresh_world_def processed_world_def empty_session_def)

lemma demo_generate:
  "generate_section (idle\<lparr>generate_clicked := True\<rparr>) scripted (processed_world demo_script)
     = Some (Inr (), quiz_world [])"
  by (simp add: generate_section_def processed_world_def empty_session_def demo_script_def
      eval_nat_numeral scripted_ask scripted_mcq strip_def is_space_def
      quiz_world_def demo_session_def demo_questions_def)

lemma demo_generate_run:
  "run_script scripted (idle\<lparr>generate_clicked := True\<rparr>) (processed_world demo_script)
     = Some (Inr (QuestionView 1 ''Q1'' [''B1'', ''C1'', ''D1'', ''A1''] None), quiz_world [])"
proof -
  have "upload_section (idle\<lparr>generate_clicked := True\<rparr>) (processed_world demo_script)
      = (Inr (), processed_world demo_script)"
    by (simp add: upload_section_def idle_def)
  moreover have "quiz_section (idle\<lparr>generate_clicked := True\<rparr>) demo_session
      = (Inr (QuestionView 1 ''Q1'' [''B1'', ''C1'', ''D1'', ''A1''] None), demo_session)"
    by (simp add: quiz_section_def demo_session_def demo_questions_def py_index_def
        submit_answer_def advance_def idle_def)
  ultimately show ?thesis
    by (simp add: run_script_def demo_generate quiz_world_def cleanup_def)
qed

lemma reachable_quiz_world: "reachable scripted (quiz_world [])"
proof -
  have "reachable scripted (fresh_world demo_script)"
    by (rule reachable.fresh) (simp add: fresh_world_def)
  from reachable.after_run[OF this demo_upload_run]
  have "reachable scripted (processed_world demo_script)" .
  from reachable.after_run[OF this demo_generate_run] show ?thesis .
qed

lemma partial_generate_run:
  "run_script scripted (idle\<lparr>generate_clicked := True\<rparr>)
      (processed_world [''Q1'', ''A1'', ''B1'', ''C1'', ''D1''])
     = Some (Inl OracleError,
         \<lparr>session = \<lparr>pdf_processed = True, qa_chain = True,
                      questions = Some [(''Q1'', [''B1'', ''C1'', ''D1'', ''A1''], ''A1'')],
                      score = Some 0, current_question = Some 0\<rparr>,
          temp_file = False, chain_state = [], rnd_state = (\<lambda>_. 0)\<rparr>)"
proof -
  have "upload_section (idle\<lparr>generate_clicked := True\<rparr>) (processed_world s)
      = (Inr (), processed_world s)" for s :: "string list"
    by (simp add: upload_section_def idle_def)
  then show ?thesis
    by (simp add: run_script_def generate_section_def processed_world_def empty_session_def
      eval_nat_numeral scripted_ask scripted_end scripted_mcq strip_def is_space_def idle_def)
qed

section \<open>The Generate MCQ handler\<close>





text \<open>
  C10. Once the questions list exists, the Generate MCQ handler does nothing: it makes
  no oracle call and leaves the whole world as it is; and a run in which only Generate
  is clicked ends and leaves questions, score and position unchanged.
\<close>

theorem generate_again_keeps_quiz:
  fixes run :: "'s qa_chain"
  assumes "questions (session w) \<noteq> None"
  shows "generate_section inp run w = Some (Inr (), w) \<and>
         (\<not> submit_clicked inp \<and> \<not> next_clicked inp \<longrightarrow>
           (\<exists>out w'. run_script run inp w = Some (out, w') \<and>
              questions (session w') = questions (session w) \<and>
              score (session w') = score (session w) \<and>
              current_question (session w') = current_question (session w)))"
proof (intro conjI impI)
  show "generate_section inp run w = Some (Inr (), w)"
    using assms by (rule generate_section_noop)
next
  assume idle: "\<not> submit_clicked inp \<and> \<not> next_clicked inp"
  obtain r w1 where up: "upload_section inp w = (r, w1)" by (cases "upload_section inp w")
  note frame = upload_section_frame[OF up]
  show "\<exists>out w'. run_script run inp w = Some (out, w') \<and>
              questions (session w') = questions (session w) \<and>
              score (session w') = score (session w) \<and>
              current_question (session w') = current_question (session w)"
  proof (cases r)
    case (Inl e)
    with up frame show ?thesis by (simp add: run_script_def)
  next
    case (Inr u)
    from frame assms have gen: "generate_section inp run w1 = Some (Inr (), w1)"
      by (intro generate_section_noop) simp
    obtain v ss where q: "quiz_section inp (session w1) = (v, ss)"
      by (cases "quiz_section inp (session w1)")
    with quiz_section_idle[of inp "session w1"] idle have ss: "ss = session w1" by simp
    show ?thesis
      using up Inr gen q ss frame
      by (cases v) (simp_all add: run_script_def cleanup_def)
  qed
qed

theorem generate_again_keeps_quiz_witness:
  "questions (session (quiz_world [''X''])) \<noteq> None \<and>
   generate_section (idle\<lparr>generate_clicked := True\<rparr>) scripted (quiz_world [''X''])
     = Some (Inr (), quiz_world [''X'']) \<and>
   run_script scripted (idle\<lparr>generate_clicked := True\<rparr>) (quiz_world [''X''])
     = Some (Inr (QuestionView 1 ''Q1'' [''B1'', ''C1'', ''D1'', ''A1''] None), quiz_world [''X''])"
proof -
  have q: "questions (session (quiz_world [''X''])) \<noteq> None"
    by (simp add: quiz_world_def demo_session_def)
  have "quiz_section (idle\<lparr>generate_clicked := True\<rparr>) demo_session
      = (Inr (QuestionView 1 ''Q1'' [''B1'', ''C1'', ''D1'', ''A1''] None), demo_session)"
    by (simp add: quiz_section_def demo_session_def demo_questions_def py_index_def
        submit_answer_def advance_def idle_def)
  then have "run_script scripted (idle\<lparr>generate_clicked := True\<rparr>) (quiz_world [''X''])
     = Some (Inr (QuestionView 1 ''Q1'' [''B1'', ''C1'', ''D1'', ''A1''] None), quiz_world [''X''])"
    by (simp add: run_script_def upload_section_def generate_section_def cleanup_def
        quiz_world_def demo_session_def idle_def)
  with generate_again_keeps_quiz[OF q, of "idle\<lparr>generate_clicked := True\<rparr>" scripted] q
  show ?thesis by simp
qed

section \<open>The quiz session\<close>

text \<open>Every section of the script keeps the invariant of the session.\<close>

lemma quiz_invariant_upload:
  assumes "upload_section inp w = (r, w1)" and "quiz_invariant (session w)"
  shows "quiz_invariant (session w1)"
  using upload_section_frame[OF assms(1)] assms(2)
  by (auto simp: quiz_invariant_def split: option.splits)

lemma quiz_invariant_generate:
  fixes run :: "'s qa_chain"
  assumes "generate_section inp run w = Some (r, w2)" and "quiz_invariant (session w)"
  shows "quiz_invariant (session w2)"
proof (cases "pdf_processed (session w) \<and> generate_clicked inp \<and> questions (session w) = None")
  case False
  with assms show ?thesis by (auto simp: generate_section_def split: if_splits)
next
  case True
  let ?w0 = "w\<lparr>session := (session w)
                 \<lparr>questions := Some [], score := Some 0, current_question := Some 0\<rparr>\<rparr>"
  from True assms(1) have gen: "generate_questions 4 run ?w0 = Some (r, w2)"
    by (simp add: generate_section_def)
  have "questions (session ?w0) = Some []" by simp
  from generate_questions_result[OF this gen] True obtain qs where
    "questions (session w2) = Some qs" "score (session w2) = Some 0"
    "current_question (session w2) = Some 0" "pdf_processed (session w2)"
    "case r of Inl e \<Rightarrow> length qs < 4 | Inr u \<Rightarrow> length qs = 4"
    by auto
  then show ?thesis by (cases r) (simp_all add: quiz_invariant_def)
qed

lemma quiz_invariant_quiz:
  assumes "quiz_section inp ss = (r, ss')" and "quiz_invariant ss"
  shows "quiz_invariant ss'"
proof (cases "questions ss")
  case None
  with assms show ?thesis by (simp add: quiz_section_def)
next
  case (Some qs)
  with assms(2) obtain c sc where c: "current_question ss = Some c" "0 \<le> c" "c \<le> int (length qs)"
    and sc: "score ss = Some sc" and rest: "pdf_processed ss" "length qs \<le> 4" "0 \<le> sc"
    by (auto simp: quiz_invariant_def split: option.splits)
  show ?thesis
  proof (cases "c < int (length qs)")
    case False
    with quiz_section_completed[OF Some c(1) False, of inp] assms show ?thesis by simp
  next
    case True
    obtain q opts correct where "qs ! nat c = (q, opts, correct)" by (cases "qs ! nat c")
    from quiz_section_in_progress[OF Some c(1) c(2) True sc this, of inp] assms(1) Some rest True c(2)
    show ?thesis by (auto simp: quiz_invariant_def)
  qed
qed

lemma quiz_invariant_run:
  fixes run :: "'s qa_chain"
  assumes "run_script run inp w = Some (out, w')" and "quiz_invariant (session w)"
  shows "quiz_invariant (session w')"
proof -
  obtain r1 w1 where up: "upload_section inp w = (r1, w1)" by (cases "upload_section inp w")
  note i1 = quiz_invariant_upload[OF up assms(2)]
  show ?thesis
  proof (cases r1)
    case (Inl e)
    with assms(1) up i1 show ?thesis by (simp add: run_script_def)
  next
    case u: (Inr u)
    with assms(1) up obtain r2 w2 where gen: "generate_section inp run w1 = Some (r2, w2)"
      by (cases "generate_section inp run w1") (auto simp: run_script_def)
    note i2 = quiz_invariant_generate[OF gen i1]
    show ?thesis
    proof (cases r2)
      case (Inl e)
      with assms(1) up u gen i2 show ?thesis by (simp add: run_script_def)
    next
      case g: (Inr v)
      obtain r3 ss where q: "quiz_section inp (session w2) = (r3, ss)"
        by (cases "quiz_section inp (session w2)")
      note i3 = quiz_invariant_quiz[OF q i2]
      from assms(1) up u gen g q i3 show ?thesis
        by (cases r3) (auto simp: run_script_def cleanup_def)
    qed
  qed
qed

lemma reachable_invariant: "reachable run w \<Longrightarrow> quiz_invariant (session w)"
proof (induction rule: reachable.induct)
  case (fresh w)
  then show ?case by (simp add: quiz_invariant_def empty_session_def)
next
  case (after_run w inp out w')
  from quiz_invariant_run[OF after_run.hyps(2) after_run.IH] show ?case .
qed

text \<open>
  A whole run once the quiz exists: the upload and Generate handlers do nothing, and the
  quiz section counts a submission and moves the position.
\<close>

lemma run_script_quiz_step:
  fixes run :: "'s qa_chain"
  assumes inv: "quiz_invariant (session w)" and qs: "questions (session w) = Some qs"
    and c: "current_question (session w) = Some c" and sc: "score (session w) = Some sc"
  shows "\<exists>out w'. run_script run inp w = Some (out, w') \<and>
           questions (session w') = Some qs \<and>
           current_question (session w')
             = Some (if next_clicked inp \<and> c < int (length qs) then c + 1 else c) \<and>
           score (session w')
             = Some (if submit_clicked inp \<and> c < int (length qs) \<and>
                        selected_option inp = snd (snd (qs ! nat c)) then sc + 1 else sc)"
proof -
  from inv qs c have p: "pdf_processed (session w)" and c0: "0 \<le> c"
    by (auto simp: quiz_invariant_def)
  have up: "upload_section inp w = (Inr (), w)" using p by (rule upload_section_processed)
  have gen: "generate_section inp run w = Some (Inr (), w)"
    using qs by (intro generate_section_noop) simp
  show ?thesis
  proof (cases "c < int (length qs)")
    case False
    from quiz_section_completed[OF qs c False, of inp] up gen qs c sc False
    show ?thesis by (cases "summary (session w) qs") (auto simp: run_script_def cleanup_def)
  next
    case True
    obtain q opts correct where at: "qs ! nat c = (q, opts, correct)" by (cases "qs ! nat c")
    from quiz_section_in_progress[OF qs c c0 True sc at, of inp] up gen qs c sc True at
    show ?thesis by (auto simp: run_script_def cleanup_def)
  qed
qed

text \<open>
  C5. In every reachable world with a questions list, the list has at most 4 entries
  and the position lies between 0 and its length; every run ends, keeps the questions,
  and moves the position by exactly one when Next is clicked while a question is shown,
  and not at all otherwise, so the position never passes the length and stays there
  once the quiz is completed. A generation cut short by an oracle error leaves fewer
  than 4 questions.
\<close>

theorem current_question_steps:
  fixes run :: "'s qa_chain"
  assumes "reachable run w" and "questions (session w) = Some qs"
  shows "length qs \<le> 4 \<and>
         (\<exists>c. current_question (session w) = Some c \<and> 0 \<le> c \<and> c \<le> int (length qs) \<and>
            (\<forall>inp. \<exists>out w'. run_script run inp w = Some (out, w') \<and>
               questions (session w') = Some qs \<and>
               current_question (session w')
                 = Some (if next_clicked inp \<and> c < int (length qs) then c + 1 else c)))"
proof -
  note inv = reachable_invariant[OF assms(1)]
  with assms(2) obtain c sc where c: "current_question (session w) = Some c"
    and sc: "score (session w) = Some sc"
    and bounds: "0 \<le> c" "c \<le> int (length qs)" "length qs \<le> 4"
    by (auto simp: quiz_invariant_def split: option.splits)
  have "\<exists>out w'. run_script run inp w = Some (out, w') \<and>
               questions (session w') = Some qs \<and>
               current_question (session w')
                 = Some (if next_clicked inp \<and> c < int (length qs) then c + 1 else c)" for inp
    using run_script_quiz_step[OF inv assms(2) c sc, of run inp] by blast
  with c bounds show ?thesis by blast
qed

lemma demo_next_run:
  "run_script scripted (idle\<lparr>next_clicked := True\<rparr>) (quiz_world [])
     = Some (Inr (QuestionView 1 ''Q1'' [''B1'', ''C1'', ''D1'', ''A1''] None),
             (quiz_world [])\<lparr>session := demo_session\<lparr>current_question := Some 1\<rparr>\<rparr>)"
  by (simp add: run_script_def upload_section_def generate_section_def cleanup_def
      quiz_section_def py_index_def submit_answer_def advance_def
      quiz_world_def demo_session_def demo_questions_def idle_def)

theorem current_question_steps_witness:
  "reachable scripted (quiz_world []) \<and>
   questions (session (quiz_world [])) = Some demo_questions \<and>
   length demo_questions \<le> 4 \<and>
   current_question (session (quiz_world [])) = Some 0 \<and>
   run_script scripted (idle\<lparr>next_clicked := True\<rparr>) (quiz_world [])
     = Some (Inr (QuestionView 1 ''Q1'' [''B1'', ''C1'', ''D1'', ''A1''] None),
             (quiz_world [])\<lparr>session := demo_session\<lparr>current_question := Some 1\<rparr>\<rparr>)"
proof -
  have q: "questions (session (quiz_world [])) = Some demo_questions"
    by (simp add: quiz_world_def demo_session_def)
  have c: "current_question (session (quiz_world [])) = Some 0"
    by (simp add: quiz_world_def demo_session_def)
  from current_question_steps[OF reachable_quiz_world q]
  have "length demo_questions \<le> 4" by simp
  with reachable_quiz_world q c demo_next_run show ?thesis by simp
qed

theorem partial_quiz_reachable:
  "reachable scripted
     \<lparr>session = \<lparr>pdf_processed = True, qa_chain = True,
                  questions = Some [(''Q1'', [''B1'', ''C1'', ''D1'', ''A1''], ''A1'')],
                  score = Some 0, current_question = Some 0\<rparr>,
      temp_file = False, chain_state = [], rnd_state = (\<lambda>_. 0)\<rparr> \<and>
   questions (session
     \<lparr>session = \<lparr>pdf_processed = True, qa_chain = True,
                  questions = Some [(''Q1'', [''B1'', ''C1'', ''D1'', ''A1''], ''A1'')],
                  score = Some 0, current_question = Some 0\<rparr>,
      temp_file = False, chain_state = [], rnd_state = (\<lambda>_. 0)\<rparr>)
     = Some [(''Q1'', [''B1'', ''C1'', ''D1'', ''A1''], ''A1'')] \<and>
   length [(''Q1'', [''B1'', ''C1'', ''D1'', ''A1''], ''A1'')] \<noteq> (4 :: nat)"
proof -
  have "reachable scripted (fresh_world [''Q1'', ''A1'', ''B1'', ''C1'', ''D1''])"
    by (rule reachable.fresh) (simp add: fresh_world_def)
  from reachable.after_run[OF this demo_upload_run]
  have "reachable scripted (processed_world [''Q1'', ''A1'', ''B1'', ''C1'', ''D1''])" .
  from reachable.after_run[OF this partial_generate_run] show ?thesis by simp
qed

text \<open>
  C2. While a question is shown, every run with Submit clicked is counted: it adds
  exactly 1 to the score when the selected option equals the current question's
  correct answer and nothing otherwise, whether or not the question was submitted
  before. Two submissions in a row without Next add up.
\<close>

theorem every_submission_counts:
  fixes run :: "'s qa_chain"
  assumes "reachable run w" and "questions (session w) = Some qs"
    and "current_question (session w) = Some c" and "c < int (length qs)"
    and "score (session w) = Some sc"
  shows "\<exists>out1 w1. run_script run inp1 w = Some (out1, w1) \<and>
           score (session w1)
             = Some (sc + (if submit_clicked inp1 \<and> selected_option inp1 = snd (snd (qs ! nat c))
                           then 1 else 0)) \<and>
           (\<not> next_clicked inp1 \<longrightarrow>
              (\<exists>out2 w2. run_script run inp2 w1 = Some (out2, w2) \<and>
                 score (session w2)
                   = Some (sc + (if submit_clicked inp1 \<and>
                                    selected_option inp1 = snd (snd (qs ! nat c)) then 1 else 0)
                              + (if submit_clicked inp2 \<and>
                                    selected_option inp2 = snd (snd (qs ! nat c)) then 1 else 0))))"
proof -
  let ?hit = "\<lambda>inp. submit_clicked inp \<and> selected_option inp = snd (snd (qs ! nat c))"
  note inv = reachable_invariant[OF assms(1)]
  from run_script_quiz_step[OF inv assms(2,3,5), of run inp1] assms(4)
  obtain out1 w1 where r1: "run_script run inp1 w = Some (out1, w1)"
    and q1: "questions (session w1) = Some qs"
    and c1: "current_question (session w1) = Some (if next_clicked inp1 then c + 1 else c)"
    and s1: "score (session w1) = Some (sc + (if ?hit inp1 then 1 else 0))"
    by auto
  have inv1: "quiz_invariant (session w1)" using quiz_invariant_run[OF r1 inv] .
  have "\<exists>out2 w2. run_script run inp2 w1 = Some (out2, w2) \<and>
          score (session w2)
            = Some (sc + (if ?hit inp1 then 1 else 0) + (if ?hit inp2 then 1 else 0))"
    if "\<not> next_clicked inp1"
  proof -
    from that c1 have c1': "current_question (session w1) = Some c" by simp
    from run_script_quiz_step[OF inv1 q1 c1' s1, of run inp2] assms(4)
    show ?thesis by auto
  qed
  with r1 s1 show ?thesis by blast
qed

lemma demo_submit_run:
  "run_script scripted (idle\<lparr>selected_option := a, submit_clicked := True\<rparr>)
      ((quiz_world [])\<lparr>session := demo_session\<lparr>score := Some n\<rparr>\<rparr>)
     = Some (Inr (QuestionView 1 ''Q1'' [''B1'', ''C1'', ''D1'', ''A1'']
                    (Some (if a = ''A1'' then Correct else Wrong))),
             (quiz_world [])\<lparr>session := demo_session\<lparr>score := Some (if a = ''A1'' then n + 1 else n)\<rparr>\<rparr>)"
  by (simp add: run_script_def upload_section_def generate_section_def cleanup_def
      quiz_section_def py_index_def submit_answer_def advance_def
      quiz_world_def demo_session_def demo_questions_def idle_def)

lemma demo_world_score: "(quiz_world s)\<lparr>session := demo_session\<lparr>score := Some 0\<rparr>\<rparr> = quiz_world s"
  by (simp add: quiz_world_def demo_session_def)

theorem every_submission_counts_witness:
  "reachable scripted (quiz_world []) \<and>
   questions (session (quiz_world [])) = Some demo_questions \<and>
   current_question (session (quiz_world [])) = Some 0 \<and>
   (0 :: int) < int (length demo_questions) \<and>
   score (session (quiz_world [])) = Some 0 \<and>
   snd (snd (demo_questions ! nat 0)) = ''A1'' \<and>
   run_script scripted (idle\<lparr>selected_option := ''B1'', submit_clicked := True\<rparr>) (quiz_world [])
     = Some (Inr (QuestionView 1 ''Q1'' [''B1'', ''C1'', ''D1'', ''A1''] (Some Wrong)),
             quiz_world []) \<and>
   run_script scripted (idle\<lparr>selected_option := ''A1'', submit_clicked := True\<rparr>) (quiz_world [])
     = Some (Inr (QuestionView 1 ''Q1'' [''B1'', ''C1'', ''D1'', ''A1''] (Some Correct)),
             (quiz_world [])\<lparr>session := demo_session\<lparr>score := Some 1\<rparr>\<rparr>)"
proof -
  have q: "questions (session (quiz_world [])) = Some demo_questions"
    and c: "current_question (session (quiz_world [])) = Some 0"
    and l: "(0 :: int) < int (length demo_questions)"
    and s: "score (session (quiz_world [])) = Some 0"
    and a: "snd (snd (demo_questions ! nat 0)) = ''A1''"
    by (simp_all add: quiz_world_def demo_session_def demo_questions_def)
  note t = every_submission_counts[OF reachable_quiz_world q c l s,
      of "idle\<lparr>selected_option := ''B1'', submit_clicked := True\<rparr>"
         "idle\<lparr>selected_option := ''A1'', submit_clicked := True\<rparr>"]
  have wrong: "run_script scripted (idle\<lparr>selected_option := ''B1'', submit_clicked := True\<rparr>)
      (quiz_world []) = Some (Inr (QuestionView 1 ''Q1'' [''B1'', ''C1'', ''D1'', ''A1''] (Some Wrong)),
             quiz_world [])"
    using demo_submit_run[of "''B1''" 0] by (simp add: demo_world_score)
  have right: "run_script scripted (idle\<lparr>selected_option := ''A1'', submit_clicked := True\<rparr>)
      (quiz_world []) = Some (Inr (QuestionView 1 ''Q1'' [''B1'', ''C1'', ''D1'', ''A1''] (Some Correct)),
             (quiz_world [])\<lparr>session := demo_session\<lparr>score := Some 1\<rparr>\<rparr>)"
    using demo_submit_run[of "''A1''" 0] by (simp add: demo_world_score)
  from t reachable_quiz_world q c l s a wrong right show ?thesis by simp
qed

theorem double_submission_counts_twice:
  "score (session (quiz_world [])) = Some 0 \<and>
   run_script scripted (idle\<lparr>selected_option := ''A1'', submit_clicked := True\<rparr>) (quiz_world [])
     = Some (Inr (QuestionView 1 ''Q1'' [''B1'', ''C1'', ''D1'', ''A1''] (Some Correct)),
             (quiz_world [])\<lparr>session := demo_session\<lparr>score := Some 1\<rparr>\<rparr>) \<and>
   run_script scripted (idle\<lparr>selected_option := ''A1'', submit_clicked := True\<rparr>)
      ((quiz_world [])\<lparr>session := demo_session\<lparr>score := Some 1\<rparr>\<rparr>)
     = Some (Inr (QuestionView 1 ''Q1'' [''B1'', ''C1'', ''D1'', ''A1''] (Some Correct)),
             (quiz_world [])\<lparr>session := demo_session\<lparr>score := Some 2\<rparr>\<rparr>)"
  using demo_submit_run[of "''A1''" 0] demo_submit_run[of "''A1''" 1]
  by (simp add: demo_world_score) (simp add: quiz_world_def demo_session_def)

text \<open>Runs in which Submit is never clicked.\<close>

lemma quiz_runs_Cons: "quiz_runs (inp # inps) ss = quiz_runs inps (snd (quiz_section inp ss))"
  by (simp add: quiz_runs_def)

lemma quiz_runs_no_submit:
  assumes "questions ss = Some qs" and "current_question ss = Some c" and "0 \<le> c"
    and "c \<le> int (length qs)" and "score ss = Some sc"
    and "\<forall>i\<in>set inps. \<not> submit_clicked i"
  shows "questions (quiz_runs inps ss) = Some qs \<and>
         current_question (quiz_runs inps ss)
           = Some (min (int (length qs)) (c + int (length (filter next_clicked inps)))) \<and>
         score (quiz_runs inps ss) = Some sc"
  using assms
proof (induction inps arbitrary: ss c)
  case Nil
  then show ?case by (simp add: quiz_runs_def)
next
  case (Cons inp inps)
  let ?ss = "snd (quiz_section inp ss)"
  let ?c = "if next_clicked inp \<and> c < int (length qs) then c + 1 else c"
  have step: "questions ?ss = Some qs \<and> current_question ?ss = Some ?c \<and> score ?ss = Some sc"
  proof (cases "c < int (length qs)")
    case True
    obtain q opts correct where at: "qs ! nat c = (q, opts, correct)" by (cases "qs ! nat c")
    from quiz_section_in_progress[OF Cons.prems(1,2,3) True Cons.prems(5) at, of inp]
      Cons.prems(1,6) True
    show ?thesis by simp
  next
    case False
    from quiz_section_completed[OF Cons.prems(1,2) False, of inp] Cons.prems(1,2,5) False
    show ?thesis by simp
  qed
  from Cons.prems have c': "0 \<le> ?c" "?c \<le> int (length qs)"
    and rest: "\<forall>i\<in>set inps. \<not> submit_clicked i" by auto
  from step have s1: "questions ?ss = Some qs" and s2: "current_question ?ss = Some ?c"
    and s3: "score ?ss = Some sc" by simp_all
  note IH = Cons.IH[OF s1 s2 c' s3 rest]
  have "min (int (length qs)) (?c + int (length (filter next_clicked inps)))
      = min (int (length qs)) (c + int (length (filter next_clicked (inp # inps))))"
    using Cons.prems(4) by auto
  with IH show ?case by (simp only: quiz_runs_Cons)
qed

text \<open>
  C8. While a question is shown, a run with Next clicked moves to the next position
  whether or not Submit is clicked in it, and nothing in the session records whether the
  question was ever submitted; a run with Next and without Submit leaves the score as it
  is. Over any sequence of runs in which Submit is never clicked, with or without runs
  in between in which nothing is clicked, the score stays as it is and the position
  advances once per run with Next clicked until it reaches the number of questions;
  from position 0 with 4 questions, 4 such advances end in the completed state, where
  the summary is shown.
\<close>

theorem next_needs_no_submission:
  assumes "questions ss = Some qs" and "current_question ss = Some c" and "0 \<le> c"
    and "c < int (length qs)" and "score ss = Some sc"
  shows "(next_clicked inp \<longrightarrow> current_question (snd (quiz_section inp ss)) = Some (c + 1)) \<and>
         (next_clicked inp \<and> \<not> submit_clicked inp \<longrightarrow> score (snd (quiz_section inp ss)) = Some sc) \<and>
         ((\<forall>i\<in>set inps. \<not> submit_clicked i) \<longrightarrow>
            score (quiz_runs inps ss) = Some sc \<and>
            current_question (quiz_runs inps ss)
              = Some (min (int (length qs)) (c + int (length (filter next_clicked inps)))) \<and>
            (int (length qs) \<le> c + int (length (filter next_clicked inps)) \<longrightarrow>
               quiz_section inp (quiz_runs inps ss)
                 = (summary (quiz_runs inps ss) qs, quiz_runs inps ss)))"
proof (intro conjI impI)
  obtain q opts correct where at: "qs ! nat c = (q, opts, correct)" by (cases "qs ! nat c")
  note step = quiz_section_in_progress[OF assms at, of inp]
  show "current_question (snd (quiz_section inp ss)) = Some (c + 1)" if "next_clicked inp"
    using step that by simp
  show "score (snd (quiz_section inp ss)) = Some sc" if "next_clicked inp \<and> \<not> submit_clicked inp"
    using step that by simp
next
  assume quiet: "\<forall>i\<in>set inps. \<not> submit_clicked i"
  from assms(4) have le: "c \<le> int (length qs)" by simp
  note fin = quiz_runs_no_submit[OF assms(1,2,3) le assms(5) quiet]
  from fin show "score (quiz_runs inps ss) = Some sc" by simp
  from fin show "current_question (quiz_runs inps ss)
      = Some (min (int (length qs)) (c + int (length (filter next_clicked inps))))" by simp
  show "quiz_section inp (quiz_runs inps ss) = (summary (quiz_runs inps ss) qs, quiz_runs inps ss)"
    if "int (length qs) \<le> c + int (length (filter next_clicked inps))"
  proof -
    from fin that have "questions (quiz_runs inps ss) = Some qs"
      and "current_question (quiz_runs inps ss) = Some (int (length qs))" by simp_all
    from quiz_section_completed[OF this, of inp] show ?thesis by simp
  qed
qed

lemma demo_next_rerun:
  "quiz_runs [idle\<lparr>next_clicked := True\<rparr>, idle, idle\<lparr>next_clicked := True\<rparr>, idle,
              idle\<lparr>next_clicked := True\<rparr>, idle, idle\<lparr>next_clicked := True\<rparr>] demo_session
     = demo_session\<lparr>current_question := Some 4\<rparr>"
  by (simp add: quiz_runs_def
      quiz_section_def py_index_def submit_answer_def advance_def
      demo_session_def demo_questions_def idle_def)

theorem next_needs_no_submission_witness:
  "questions demo_session = Some demo_questions \<and> current_question demo_session = Some 0 \<and>
   (0 :: int) < int (length demo_questions) \<and> score demo_session = Some 0 \<and>
   next_clicked (idle\<lparr>next_clicked := True\<rparr>) \<and> \<not> submit_clicked (idle\<lparr>next_clicked := True\<rparr>) \<and>
   \<not> submit_clicked idle \<and>
   current_question (snd (quiz_section (idle\<lparr>next_clicked := True\<rparr>) demo_session)) = Some 1 \<and>
   score (snd (quiz_section (idle\<lparr>next_clicked := True\<rparr>) demo_session)) = Some 0 \<and>
   length (filter next_clicked
     [idle\<lparr>next_clicked := True\<rparr>, idle, idle\<lparr>next_clicked := True\<rparr>, idle,
      idle\<lparr>next_clicked := True\<rparr>, idle, idle\<lparr>next_clicked := True\<rparr>]) = 4 \<and>
   quiz_runs [idle\<lparr>next_clicked := True\<rparr>, idle, idle\<lparr>next_clicked := True\<rparr>, idle,
              idle\<lparr>next_clicked := True\<rparr>, idle, idle\<lparr>next_clicked := True\<rparr>] demo_session
     = demo_session\<lparr>current_question := Some 4\<rparr> \<and>
   quiz_section idle (demo_session\<lparr>current_question := Some 4\<rparr>)
     = (summary (demo_session\<lparr>current_question := Some 4\<rparr>) demo_questions,
        demo_session\<lparr>current_question := Some 4\<rparr>)"
proof -
  let ?inps = "[idle\<lparr>next_clicked := True\<rparr>, idle, idle\<lparr>next_clicked := True\<rparr>, idle,
      idle\<lparr>next_clicked := True\<rparr>, idle, idle\<lparr>next_clicked := True\<rparr>]"
  have q: "questions demo_session = Some demo_questions"
    and c: "current_question demo_session = Some 0"
    and l: "(0 :: int) < int (length demo_questions)"
    and s: "score demo_session = Some 0"
    and k: "next_clicked (idle\<lparr>next_clicked := True\<rparr>)" "\<not> submit_clicked (idle\<lparr>next_clicked := True\<rparr>)"
      "\<not> submit_clicked idle"
    and n: "length (filter next_clicked ?inps) = 4"
    and m: "length demo_questions = 4"
    by (simp_all add: demo_session_def demo_questions_def idle_def)
  from k have quiet: "\<forall>i\<in>set ?inps. \<not> submit_clicked i" by simp
  note t = next_needs_no_submission[OF q c order_refl l s]
  from t[of "idle\<lparr>next_clicked := True\<rparr>" ?inps] k
  have one: "current_question (snd (quiz_section (idle\<lparr>next_clicked := True\<rparr>) demo_session)) = Some 1"
    "score (snd (quiz_section (idle\<lparr>next_clicked := True\<rparr>) demo_session)) = Some 0"
    by simp_all
  from t[of idle ?inps, THEN conjunct2, THEN conjunct2] quiet n m
  have "quiz_section idle (quiz_runs ?inps demo_session)
      = (summary (quiz_runs ?inps demo_session) demo_questions, quiz_runs ?inps demo_session)"
    by simp
  then have fin: "quiz_section idle (demo_session\<lparr>current_question := Some 4\<rparr>)
     = (summary (demo_session\<lparr>current_question := Some 4\<rparr>) demo_questions,
        demo_session\<lparr>current_question := Some 4\<rparr>)"
    by (simp only: demo_next_rerun)
  from q c l s k one n demo_next_rerun fin show ?thesis by (intro conjI)
qed

section \<open>The completion summary\<close>

text \<open>
  Rounding to a double changes nothing in a number that is an integer below \<open>2 ^ 53\<close>
  in absolute value times a power of two.
\<close>

lemma float_exponent_le:
  assumes "x \<noteq> 0"
  shows "2 powi (float_exponent x) \<le> \<bar>x\<bar>"
proof -
  obtain p q where pq: "quotient_of \<bar>x\<bar> = (p, q)" by (cases "quotient_of \<bar>x\<bar>")
  from quotient_of_denom_pos[OF pq] have q: "0 < q" .
  from quotient_of_div[OF pq] have x: "\<bar>x\<bar> = of_int p / of_int q" .
  from assms have "0 < \<bar>x\<bar>" by simp
  with x q have p: "0 < p" by (simp add: zero_less_divide_iff)
  let ?k = "bitlen p - bitlen q"
  show ?thesis
  proof (cases "(2 :: rat) powi ?k \<le> \<bar>x\<bar>")
    case True
    with pq show ?thesis by (simp add: float_exponent_def)
  next
    case False
    with pq have E: "float_exponent x = ?k - 1" by (simp add: float_exponent_def)
    from bitlen_bounds[OF p] have "2 ^ nat (bitlen p - 1) \<le> p" by simp
    then have "(of_int (2 ^ nat (bitlen p - 1)) :: rat) \<le> of_int p" by (simp only: of_int_le_iff)
    then have lo: "(2 :: rat) ^ nat (bitlen p - 1) \<le> of_int p" by simp
    from bitlen_bounds[OF q] have "q < 2 ^ nat (bitlen q)" by simp
    then have "(of_int q :: rat) < of_int (2 ^ nat (bitlen q))" by (simp only: of_int_less_iff)
    then have hi: "(of_int q :: rat) < 2 ^ nat (bitlen q)" by simp
    from p have bp: "1 \<le> bitlen p" by (simp add: bitlen_alt_def)
    have bq: "0 \<le> bitlen q" by (rule bitlen_nonneg)
    have "(2 :: rat) powi (?k - 1) = 2 powi (bitlen p - 1) / 2 powi (bitlen q)"
      by (simp add: power_int_diff)
    also have "\<dots> = 2 ^ nat (bitlen p - 1) / 2 ^ nat (bitlen q)"
      using bp bq by (simp add: power_int_def)
    also have "\<dots> \<le> of_int p / 2 ^ nat (bitlen q)"
      using lo by (simp add: divide_right_mono)
    also have "\<dots> \<le> of_int p / of_int q"
      using hi p q by (intro divide_left_mono) (simp_all add: less_imp_le)
    finally show ?thesis using E x by simp
  qed
qed

lemma round_half_even_int: "round_half_even (of_int n) = n"
  by (simp add: round_half_even_def)

lemma round_float_exact:
  assumes "\<bar>k\<bar> < 2 ^ 53"
  shows "round_float (of_int k * 2 powi e) = of_int k * 2 powi e"
proof (cases "k = 0")
  case True
  then show ?thesis by (simp add: round_float_def)
next
  case False
  let ?x = "of_int k * (2 :: rat) powi e"
  let ?E = "float_exponent ?x"
  have pos: "(0 :: rat) < 2 powi e" by simp
  from False have nz: "?x \<noteq> 0" by simp
  have "\<bar>?x\<bar> = of_int \<bar>k\<bar> * 2 powi e" by (simp add: abs_mult)
  also have "\<dots> < of_int (2 ^ 53) * 2 powi e"
    using assms pos by (intro mult_strict_right_mono) (simp_all only: of_int_less_iff)
  also have "\<dots> = 2 powi (53 + e)" by (simp add: power_int_add)
  finally have "\<bar>?x\<bar> < 2 powi (53 + e)" .
  with float_exponent_le[OF nz] have "(2 :: rat) powi ?E < 2 powi (53 + e)" by simp
  then have small: "(2 :: rat) powi ?E < 2 powi (53 + e)" .
  have "?E < 53 + e"
  proof (rule ccontr)
    assume "\<not> ?E < 53 + e"
    then have "53 + e \<le> ?E" by simp
    from power_int_increasing[OF this, of "2 :: rat"] have "(2 :: rat) powi (53 + e) \<le> 2 powi ?E"
      by simp
    with small show False by simp
  qed
  then have "0 \<le> e - (?E - 52)" by simp
  then obtain d where d: "e - (?E - 52) = int d" by (rule nonneg_int_cases)
  have "?x / 2 powi (?E - 52) = of_int k * 2 powi (e - (?E - 52))"
    by (simp add: power_int_diff)
  also have "\<dots> = of_int (k * 2 ^ d)" by (simp add: d)
  finally have whole: "?x / 2 powi (?E - 52) = of_int (k * 2 ^ d)" .
  have "round_float ?x = of_int (round_half_even (?x / 2 powi (?E - 52))) * 2 powi (?E - 52)"
    using nz by (simp add: round_float_def Let_def)
  also have "\<dots> = (?x / 2 powi (?E - 52)) * 2 powi (?E - 52)"
    by (simp only: whole round_half_even_int)
  also have "\<dots> = ?x" by simp
  finally show ?thesis .
qed

lemma score_percentage_four:
  assumes "0 \<le> sc" and "sc < 2 ^ 48"
  shows "score_percentage sc 4 = Inr (of_int (25 * sc))"
proof -
  from assms have k1: "\<bar>sc\<bar> < 2 ^ 53" by simp
  from assms have k2: "\<bar>25 * sc\<bar> < 2 ^ 53" by simp
  have q: "(of_int sc :: rat) / 4 = of_int sc * 2 powi (- 2)"
    by (simp add: power_int_minus)
  have a: "round_float (of_int sc / 4) = of_int sc / 4"
    unfolding q using k1 by (rule round_float_exact)
  have b: "(of_int sc :: rat) / 4 * 100 = of_int (25 * sc)" by simp
  have "(of_int (25 * sc) :: rat) = of_int (25 * sc) * 2 powi 0" by simp
  with round_float_exact[OF k2, of 0]
  have c: "round_float (of_int (25 * sc)) = of_int (25 * sc)" by simp
  have "score_percentage sc 4 = Inr (round_float (round_float (of_int sc / 4) * 100))"
    by (simp add: score_percentage_def)
  also have "\<dots> = Inr (round_float (of_int sc / 4 * 100))" by (simp only: a)
  also have "\<dots> = Inr (round_float (of_int (25 * sc)))" by (simp only: b)
  also have "\<dots> = Inr (of_int (25 * sc))" by (simp only: c)
  finally show ?thesis .
qed

lemma digit_chars:
  "digit_char 0 = CHR ''0''" "digit_char 1 = CHR ''1''" "digit_char 2 = CHR ''2''"
  "digit_char 5 = CHR ''5''" "digit_char 7 = CHR ''7''" "digit_char (Suc 0) = CHR ''1''"
  by code_simp+

lemma format_2f_of_int:
  assumes "0 \<le> n"
  shows "format_2f (of_int n) = digits (nat n) @ ''.00''"
proof -
  from assms have "\<bar>of_int n :: rat\<bar> * 100 = of_int (n * 100)" by simp
  then have "round_half_even (\<bar>of_int n :: rat\<bar> * 100) = n * 100"
    by (simp only: round_half_even_int)
  moreover from assms have "nat (n * 100) = nat n * 100" by (simp add: nat_mult_distrib)
  moreover from assms have "\<not> (of_int n :: rat) < 0" by simp
  ultimately show ?thesis by (simp add: format_2f_def digit_chars)
qed

text \<open>A whole run once the position has reached the number of questions.\<close>

lemma run_script_completed:
  fixes run :: "'s qa_chain"
  assumes "pdf_processed (session w)" and "questions (session w) = Some qs"
    and "current_question (session w) = Some c" and "\<not> c < int (length qs)"
  shows "run_script run inp w
    = (case summary (session w) qs of Inl e \<Rightarrow> Some (Inl e, w) | Inr v \<Rightarrow> Some (Inr v, cleanup w))"
proof -
  have up: "upload_section inp w = (Inr (), w)" using assms(1) by (rule upload_section_processed)
  have gen: "generate_section inp run w = Some (Inr (), w)"
    using assms(2) by (intro generate_section_noop) simp
  from quiz_section_completed[OF assms(2,3,4), of inp] up gen show ?thesis
    by (cases "summary (session w) qs") (simp_all add: run_script_def)
qed

text \<open>Sequences of runs, and the runs of the quiz with the scripted oracle.\<close>

lemma reachable_script_runs:
  "reachable run w \<Longrightarrow> script_runs run inps w = Some w' \<Longrightarrow> reachable run w'"
proof (induction inps arbitrary: w)
  case Nil
  then show ?case by simp
next
  case (Cons inp inps)
  from Cons.prems(2) obtain out w1 where r: "run_script run inp w = Some (out, w1)"
    and rest: "script_runs run inps w1 = Some w'"
    by (cases "run_script run inp w") auto
  from Cons.IH[OF reachable.after_run[OF Cons.prems(1) r] rest] show ?case .
qed

lemma demo_start: "quiz_world [] = demo_at 0 0"
  by (simp add: quiz_world_def demo_at_def demo_session_def)

lemma demo_step:
  assumes "0 \<le> c" and "c < 4"
  shows "run_script scripted inp (demo_at n c)
    = Some (Inr (QuestionView (c + 1) (fst (demo_questions ! nat c))
                   (fst (snd (demo_questions ! nat c)))
                   (if submit_clicked inp
                    then Some (if selected_option inp = snd (snd (demo_questions ! nat c))
                               then Correct else Wrong)
                    else None)),
            demo_at (if submit_clicked inp \<and> selected_option inp = snd (snd (demo_questions ! nat c))
                     then n + 1 else n)
                    (if next_clicked inp then c + 1 else c))"
proof -
  have up: "upload_section inp (demo_at n c) = (Inr (), demo_at n c)"
    by (rule upload_section_processed) (simp add: demo_at_def)
  have gen: "generate_section inp scripted (demo_at n c) = Some (Inr (), demo_at n c)"
    by (rule generate_section_noop) (simp add: demo_at_def)
  have q: "questions (session (demo_at n c)) = Some demo_questions"
    and cq: "current_question (session (demo_at n c)) = Some c"
    and sc: "score (session (demo_at n c)) = Some n"
    by (simp_all add: demo_at_def)
  from assms have less: "c < int (length demo_questions)" by (simp add: demo_questions_def)
  have at: "demo_questions ! nat c = (fst (demo_questions ! nat c),
      fst (snd (demo_questions ! nat c)), snd (snd (demo_questions ! nat c)))" by simp
  from quiz_section_in_progress[OF q cq assms(1) less sc at, of inp] up gen
  show ?thesis by (simp add: run_script_def cleanup_def demo_at_def)
qed

lemma demo_scores_three:
  "script_runs scripted
     [idle\<lparr>selected_option := ''A1''\<rparr>,
      idle\<lparr>selected_option := ''A1'', submit_clicked := True\<rparr>,
      idle\<lparr>selected_option := ''A1'', next_clicked := True\<rparr>,
      idle\<lparr>selected_option := ''B2''\<rparr>,
      idle\<lparr>selected_option := ''A2''\<rparr>,
      idle\<lparr>selected_option := ''A2'', submit_clicked := True\<rparr>,
      idle\<lparr>selected_option := ''A2'', next_clicked := True\<rparr>,
      idle\<lparr>selected_option := ''B3''\<rparr>,
      idle\<lparr>selected_option := ''A3''\<rparr>,
      idle\<lparr>selected_option := ''A3'', submit_clicked := True\<rparr>,
      idle\<lparr>selected_option := ''A3'', next_clicked := True\<rparr>,
      idle\<lparr>selected_option := ''B4''\<rparr>,
      idle\<lparr>selected_option := ''B4'', next_clicked := True\<rparr>]
     (demo_at 0 0) = Some (demo_at 3 4)"
  by (simp add: demo_step idle_def demo_questions_def)

lemma demo_scores_five:
  "script_runs scripted
     [idle\<lparr>selected_option := ''A1''\<rparr>,
      idle\<lparr>selected_option := ''A1'', submit_clicked := True\<rparr>,
      idle\<lparr>selected_option := ''A1'', submit_clicked := True\<rparr>,
      idle\<lparr>selected_option := ''A1'', next_clicked := True\<rparr>,
      idle\<lparr>selected_option := ''B2''\<rparr>,
      idle\<lparr>selected_option := ''A2''\<rparr>,
      idle\<lparr>selected_option := ''A2'', submit_clicked := True\<rparr>,
      idle\<lparr>selected_option := ''A2'', next_clicked := True\<rparr>,
      idle\<lparr>selected_option := ''B3''\<rparr>,
      idle\<lparr>selected_option := ''A3''\<rparr>,
      idle\<lparr>selected_option := ''A3'', submit_clicked := True\<rparr>,
      idle\<lparr>selected_option := ''A3'', next_clicked := True\<rparr>,
      idle\<lparr>selected_option := ''B4''\<rparr>,
      idle\<lparr>selected_option := ''A4''\<rparr>,
      idle\<lparr>selected_option := ''A4'', submit_clicked := True\<rparr>,
      idle\<lparr>selected_option := ''A4'', next_clicked := True\<rparr>]
     (demo_at 0 0) = Some (demo_at 5 4)"
  by (simp add: demo_step idle_def demo_questions_def)

lemma reachable_demo_three: "reachable scripted (demo_at 3 4)"
  using reachable_script_runs[OF reachable_quiz_world[unfolded demo_start] demo_scores_three] .

lemma reachable_demo_five: "reachable scripted (demo_at 5 4)"
  using reachable_script_runs[OF reachable_quiz_world[unfolded demo_start] demo_scores_five] .

lemma empty_generate_run:
  "run_script scripted (idle\<lparr>generate_clicked := True\<rparr>) (processed_world [])
     = Some (Inl OracleError,
         \<lparr>session = \<lparr>pdf_processed = True, qa_chain = True, questions = Some [],
                      score = Some 0, current_question = Some 0\<rparr>,
          temp_file = False, chain_state = [], rnd_state = (\<lambda>_. 0)\<rparr>)"
proof -
  have "upload_section (idle\<lparr>generate_clicked := True\<rparr>) (processed_world s)
      = (Inr (), processed_world s)" for s :: "string list"
    by (simp add: upload_section_def idle_def)
  then show ?thesis
    by (simp add: run_script_def generate_section_def processed_world_def empty_session_def
      eval_nat_numeral scripted_end idle_def)
qed

lemma demo_completed_run:
  assumes "0 \<le> n" and "n < 2 ^ 48"
  shows "run_script scripted inp (demo_at n 4)
    = Some (Inr (SummaryView (digits (nat (25 * n)) @ ''.00'')
                   [(''Q1'', ''A1''), (''Q2'', ''A2''), (''Q3'', ''A3''), (''Q4'', ''A4'')]),
            demo_at n 4)"
proof -
  have p: "pdf_processed (session (demo_at n 4))"
    and q: "questions (session (demo_at n 4)) = Some demo_questions"
    and c: "current_question (session (demo_at n 4)) = Some 4"
    and e: "\<not> 4 < int (length demo_questions)"
    by (simp_all add: demo_at_def demo_questions_def)
  have l: "length demo_questions = 4" by (simp add: demo_questions_def)
  have r: "review demo_questions = [(''Q1'', ''A1''), (''Q2'', ''A2''), (''Q3'', ''A3''), (''Q4'', ''A4'')]"
    by (simp add: review_def demo_questions_def)
  from assms have "format_2f (of_int (25 * n)) = digits (nat (25 * n)) @ ''.00''"
    by (intro format_2f_of_int) simp
  then have f: "format_2f (25 * of_int n) = digits (nat (25 * n)) @ ''.00''" by simp
  have "summary (session (demo_at n 4)) demo_questions
      = Inr (SummaryView (digits (nat (25 * n)) @ ''.00'')
               [(''Q1'', ''A1''), (''Q2'', ''A2''), (''Q3'', ''A3''), (''Q4'', ''A4'')])"
    by (simp add: summary_def demo_at_def l r f score_percentage_four[OF assms])
  with run_script_completed[OF p q c e, of scripted inp] show ?thesis
    by (simp add: cleanup_def demo_at_def)
qed

text \<open>
  C6. In every reachable completed session the score is not negative and there are at
  most 4 questions. With 4 questions the percentage computed in floating point is
  exactly 100 * score / total for every score below 2 ^ 48, also above 4, and the
  run shows it with two decimals after the integer 25 * score, together with the review
  of all questions in their order. With no question at all the run ends with
  ZeroDivisionError and shows nothing.
\<close>

theorem summary_percentage_exact:
  fixes run :: "'s qa_chain"
  assumes "reachable run w" and "questions (session w) = Some qs"
    and "current_question (session w) = Some c" and "int (length qs) \<le> c"
    and "score (session w) = Some sc"
  shows "0 \<le> sc \<and> length qs \<le> 4 \<and>
         (length qs = 4 \<and> sc < 2 ^ 48 \<longrightarrow>
            score_percentage sc (length qs) = Inr (100 * of_int sc / of_nat (length qs)) \<and>
            run_script run inp w
              = Some (Inr (SummaryView (digits (nat (25 * sc)) @ ''.00'') (review qs)), cleanup w)) \<and>
         (length qs = 0 \<longrightarrow> run_script run inp w = Some (Inl ZeroDivisionError, w))"
proof -
  from reachable_invariant[OF assms(1)] assms(2,5)
  have p: "pdf_processed (session w)" and nonneg: "0 \<le> sc" and few: "length qs \<le> 4"
    by (auto simp: quiz_invariant_def split: option.splits)
  from assms(4) have past: "\<not> c < int (length qs)" by simp
  note shown = run_script_completed[OF p assms(2,3) past, of run inp]
  have four: "score_percentage sc (length qs) = Inr (100 * of_int sc / of_nat (length qs)) \<and>
      run_script run inp w
        = Some (Inr (SummaryView (digits (nat (25 * sc)) @ ''.00'') (review qs)), cleanup w)"
    if l: "length qs = 4" and small: "sc < 2 ^ 48"
  proof -
    from nonneg have "format_2f (of_int (25 * sc)) = digits (nat (25 * sc)) @ ''.00''"
      by (intro format_2f_of_int) simp
    then have f: "format_2f (25 * of_int sc) = digits (nat (25 * sc)) @ ''.00''" by simp
    note pc = score_percentage_four[OF nonneg small]
    have v: "(of_int (25 * sc) :: rat) = 100 * of_int sc / of_nat (length qs)"
      by (simp add: l)
    have "summary (session w) qs
        = Inr (SummaryView (digits (nat (25 * sc)) @ ''.00'') (review qs))"
      by (simp add: summary_def assms(5) l pc f)
    with shown pc v l show ?thesis by simp
  qed
  have none: "run_script run inp w = Some (Inl ZeroDivisionError, w)" if "length qs = 0"
  proof -
    from that have "summary (session w) qs = Inl ZeroDivisionError"
      by (simp add: summary_def assms(5) score_percentage_def)
    with shown show ?thesis by simp
  qed
  from nonneg few four none show ?thesis by blast
qed

theorem summary_percentage_exact_witness:
  "reachable scripted (demo_at 3 4) \<and>
   questions (session (demo_at 3 4)) = Some demo_questions \<and>
   current_question (session (demo_at 3 4)) = Some 4 \<and>
   int (length demo_questions) \<le> 4 \<and>
   score (session (demo_at 3 4)) = Some 3 \<and>
   length demo_questions = 4 \<and> (3 :: int) < 2 ^ 48 \<and>
   score_percentage 3 (length demo_questions) = Inr 75 \<and>
   run_script scripted idle (demo_at 3 4)
     = Some (Inr (SummaryView ''75.00''
                    [(''Q1'', ''A1''), (''Q2'', ''A2''), (''Q3'', ''A3''), (''Q4'', ''A4'')]),
             demo_at 3 4)"
proof -
  have q: "questions (session (demo_at 3 4)) = Some demo_questions"
    and c: "current_question (session (demo_at 3 4)) = Some 4"
    and e: "int (length demo_questions) \<le> 4"
    and s: "score (session (demo_at 3 4)) = Some 3"
    and l: "length demo_questions = 4"
    and b: "(3 :: int) < 2 ^ 48"
    by (simp_all add: demo_at_def demo_questions_def)
  have r: "review demo_questions = [(''Q1'', ''A1''), (''Q2'', ''A2''), (''Q3'', ''A3''), (''Q4'', ''A4'')]"
    by (simp add: review_def demo_questions_def)
  have d: "digits (nat (25 * 3)) @ ''.00'' = ''75.00''"
    by (simp add: digits.simps digit_chars)
  have k: "cleanup (demo_at 3 4) = demo_at 3 4" by (simp add: cleanup_def demo_at_def)
  from summary_percentage_exact[OF reachable_demo_three q c e s, of idle] l b
  have "score_percentage 3 (length demo_questions) = Inr (100 * of_int 3 / of_nat (length demo_questions))"
    and "run_script scripted idle (demo_at 3 4)
      = Some (Inr (SummaryView (digits (nat (25 * 3)) @ ''.00'') (review demo_questions)),
              cleanup (demo_at 3 4))"
    by simp_all
  then have "score_percentage 3 (length demo_questions) = Inr 75"
    and "run_script scripted idle (demo_at 3 4)
      = Some (Inr (SummaryView ''75.00''
                    [(''Q1'', ''A1''), (''Q2'', ''A2''), (''Q3'', ''A3''), (''Q4'', ''A4'')]),
             demo_at 3 4)"
    by (simp_all only: d k r l) simp_all
  with reachable_demo_three q c e s l b show ?thesis by (intro conjI)
qed

theorem completed_outside_claimed_range:
  "reachable scripted (demo_at 5 4) \<and>
   questions (session (demo_at 5 4)) = Some demo_questions \<and> length demo_questions = 4 \<and>
   current_question (session (demo_at 5 4)) = Some 4 \<and>
   score (session (demo_at 5 4)) = Some 5 \<and>
   run_script scripted idle (demo_at 5 4)
     = Some (Inr (SummaryView ''125.00''
                    [(''Q1'', ''A1''), (''Q2'', ''A2''), (''Q3'', ''A3''), (''Q4'', ''A4'')]),
             demo_at 5 4) \<and>
   reachable scripted
     \<lparr>session = \<lparr>pdf_processed = True, qa_chain = True, questions = Some [],
                  score = Some 0, current_question = Some 0\<rparr>,
      temp_file = False, chain_state = [], rnd_state = (\<lambda>_. 0)\<rparr> \<and>
   run_script scripted idle
     \<lparr>session = \<lparr>pdf_processed = True, qa_chain = True, questions = Some [],
                  score = Some 0, current_question = Some 0\<rparr>,
      temp_file = False, chain_state = [], rnd_state = (\<lambda>_. 0)\<rparr>
     = Some (Inl ZeroDivisionError,
         \<lparr>session = \<lparr>pdf_processed = True, qa_chain = True, questions = Some [],
                      score = Some 0, current_question = Some 0\<rparr>,
          temp_file = False, chain_state = [], rnd_state = (\<lambda>_. 0)\<rparr>)"
proof -
  have facts: "questions (session (demo_at 5 4)) = Some demo_questions"
    "length demo_questions = 4" "current_question (session (demo_at 5 4)) = Some 4"
    "score (session (demo_at 5 4)) = Some 5"
    by (simp_all add: demo_at_def demo_questions_def)
  have d: "digits (nat (25 * 5)) @ ''.00'' = ''125.00''"
    by (simp add: digits.simps digit_chars)
  from demo_completed_run[of 5 idle] d
  have shown: "run_script scripted idle (demo_at 5 4)
     = Some (Inr (SummaryView ''125.00''
                    [(''Q1'', ''A1''), (''Q2'', ''A2''), (''Q3'', ''A3''), (''Q4'', ''A4'')]),
             demo_at 5 4)"
    by simp
  have "reachable scripted (fresh_world [])"
    by (rule reachable.fresh) (simp add: fresh_world_def)
  from reachable.after_run[OF this demo_upload_run]
  have "reachable scripted (processed_world [])" .
  from reachable.after_run[OF this empty_generate_run]
  have empty: "reachable scripted
     \<lparr>session = \<lparr>pdf_processed = True, qa_chain = True, questions = Some [],
                  score = Some 0, current_question = Some 0\<rparr>,
      temp_file = False, chain_state = [], rnd_state = (\<lambda>_. 0)\<rparr>" .
  have zero: "run_script scripted idle
     \<lparr>session = \<lparr>pdf_processed = True, qa_chain = True, questions = Some [],
                  score = Some 0, current_question = Some 0\<rparr>,
      temp_file = False, chain_state = [], rnd_state = (\<lambda>_. 0)\<rparr>
     = Some (Inl ZeroDivisionError,
         \<lparr>session = \<lparr>pdf_processed = True, qa_chain = True, questions = Some [],
                      score = Some 0, current_question = Some 0\<rparr>,
          temp_file = False, chain_state = [], rnd_state = (\<lambda>_. 0)\<rparr>)"
    by (simp add: run_script_def upload_section_def generate_section_def quiz_section_def
        summary_def score_percentage_def idle_def)
  from reachable_demo_five facts shown empty zero show ?thesis by (intro conjI)
qed

section \<open>The temporary file\<close>

text \<open>
  C7. The removal of the temporary file is the last statement of the script, so a run
  that ends early does not reach it: after a failed write and after a failure of
  loading or indexing the file is still on disk, while a run that processes the upload
  to the end removes it.
\<close>

theorem temp_file_left_behind:
  "run_script scripted (idle\<lparr>uploaded_file := True, upload_index_ok := False\<rparr>) (fresh_world [])
     = Some (Inl IndexingError, (fresh_world [])\<lparr>temp_file := True\<rparr>) \<and>
   run_script scripted (idle\<lparr>uploaded_file := True, upload_save := WriteFailed\<rparr>) (fresh_world [])
     = Some (Inl ScriptStopped, (fresh_world [])\<lparr>temp_file := True\<rparr>) \<and>
   run_script scripted (idle\<lparr>uploaded_file := True\<rparr>) (fresh_world [])
     = Some (Inr NoQuiz, processed_world []) \<and>
   temp_file (processed_world ([] :: string list)) = False"
  by (simp add: run_script_def upload_section_def generate_section_def quiz_section_def
      cleanup_def idle_def fresh_world_def processed_world_def empty_session_def)

end
